theory Spec2Isabelle
  imports Complex_Main
begin

section \<open>JavaScript values used by the scheduler\<close>

text \<open>
  The clock and its events compute with JavaScript numbers, and several fields can also hold
  \<open>undefined\<close> or \<open>null\<close>. A value is modelled as an exact rational, one of the two
  infinities, \<open>NaN\<close>, \<open>undefined\<close> or \<open>null\<close>. Rounding of IEEE doubles and the sign of
  zero are not modelled: finite arithmetic is exact.
\<close>

datatype jsval = Undefined | Null | Num rat | PInf | NInf | NaN

text \<open>\<open>ToNumber\<close>: \<open>undefined\<close> becomes \<open>NaN\<close>, \<open>null\<close> becomes \<open>0\<close>.\<close>

fun to_number :: "jsval \<Rightarrow> jsval" where
  "to_number Undefined = NaN"
| "to_number Null = Num 0"
| "to_number v = v"

fun num_add :: "jsval \<Rightarrow> jsval \<Rightarrow> jsval" where
  "num_add (Num x) (Num y) = Num (x + y)"
| "num_add (Num x) PInf = PInf"
| "num_add (Num x) NInf = NInf"
| "num_add PInf (Num y) = PInf"
| "num_add PInf PInf = PInf"
| "num_add NInf (Num y) = NInf"
| "num_add NInf NInf = NInf"
| "num_add a b = NaN"

fun num_neg :: "jsval \<Rightarrow> jsval" where
  "num_neg (Num x) = Num (- x)"
| "num_neg PInf = NInf"
| "num_neg NInf = PInf"
| "num_neg v = NaN"

fun num_mul :: "jsval \<Rightarrow> jsval \<Rightarrow> jsval" where
  "num_mul (Num x) (Num y) = Num (x * y)"
| "num_mul (Num x) PInf = (if x = 0 then NaN else if 0 < x then PInf else NInf)"
| "num_mul (Num x) NInf = (if x = 0 then NaN else if 0 < x then NInf else PInf)"
| "num_mul PInf (Num y) = (if y = 0 then NaN else if 0 < y then PInf else NInf)"
| "num_mul NInf (Num y) = (if y = 0 then NaN else if 0 < y then NInf else PInf)"
| "num_mul PInf PInf = PInf"
| "num_mul PInf NInf = NInf"
| "num_mul NInf PInf = NInf"
| "num_mul NInf NInf = PInf"
| "num_mul a b = NaN"

fun num_lt :: "jsval \<Rightarrow> jsval \<Rightarrow> bool" where
  "num_lt (Num x) (Num y) = (x < y)"
| "num_lt (Num x) PInf = True"
| "num_lt NInf (Num y) = True"
| "num_lt NInf PInf = True"
| "num_lt a b = False"

fun num_le :: "jsval \<Rightarrow> jsval \<Rightarrow> bool" where
  "num_le (Num x) (Num y) = (x \<le> y)"
| "num_le (Num x) PInf = True"
| "num_le NInf (Num y) = True"
| "num_le NInf PInf = True"
| "num_le NInf NInf = True"
| "num_le PInf PInf = True"
| "num_le a b = False"

text \<open>The operators \<open>+\<close>, \<open>-\<close>, \<open>*\<close>, \<open>/ 1000\<close>, \<open><\<close>, \<open><=\<close> and \<open>>=\<close> on such values.\<close>

definition js_add :: "jsval \<Rightarrow> jsval \<Rightarrow> jsval" where
  "js_add a b = num_add (to_number a) (to_number b)"

definition js_sub :: "jsval \<Rightarrow> jsval \<Rightarrow> jsval" where
  "js_sub a b = num_add (to_number a) (num_neg (to_number b))"

definition js_mul :: "jsval \<Rightarrow> jsval \<Rightarrow> jsval" where
  "js_mul a b = num_mul (to_number a) (to_number b)"

definition js_div1000 :: "jsval \<Rightarrow> jsval" where
  "js_div1000 a = (case to_number a of Num x \<Rightarrow> Num (x / 1000) | v \<Rightarrow> v)"

definition js_lt :: "jsval \<Rightarrow> jsval \<Rightarrow> bool" where
  "js_lt a b = num_lt (to_number a) (to_number b)"

definition js_le :: "jsval \<Rightarrow> jsval \<Rightarrow> bool" where
  "js_le a b = num_le (to_number a) (to_number b)"

definition js_ge :: "jsval \<Rightarrow> jsval \<Rightarrow> bool" where
  "js_ge a b = num_le (to_number b) (to_number a)"

text \<open>\<open>!v\<close> and \<open>typeof v === 'number'\<close>.\<close>

definition falsy :: "jsval \<Rightarrow> bool" where
  "falsy v = (v = Undefined \<or> v = Null \<or> v = Num 0 \<or> v = NaN)"

definition is_number :: "jsval \<Rightarrow> bool" where
  "is_number v = (v \<noteq> Undefined \<and> v \<noteq> Null)"

section \<open>Events, the clock and its queue\<close>

text \<open>
  \<open>KDAudioClockEvent\<close>: the closure variable \<open>deleted\<close> and the fields of \<open>self\<close>. A handler
  is user code; the model records whether it is present and, when it is invoked, appends an
  observation to the clock's trace. Handlers are taken not to call back into the clock.
\<close>

record event =
  deleted :: bool
  uid :: "nat option"
  suspended :: bool
  scheduled :: jsval
  earliest :: jsval
  latest :: jsval
  tol_early :: jsval
  tol_late :: jsval
  initialInterval :: jsval
  currentInterval :: jsval
  repetitions :: jsval
  elapsedTickCount :: nat
  stretch :: jsval
  onTick :: bool
  onComplete :: bool
  onAborted :: bool
  onMissed :: bool

datatype handler = OnTick | OnComplete | OnAborted | OnMissed

text \<open>
  What a run shows to the outside: a handler invoked on an event, a \<open>console.warn\<close>, and
  (as instrumentation) each firing of \<open>execute\<close> with its on-time classification.
\<close>

datatype obs = Fired nat bool | Callback nat handler | Warn string

text \<open>
  \<open>KDAudioClock\<close>: the fields of \<open>self\<close>. Events are objects with identity; an event is a
  reference (an index) into \<open>heap\<close>. \<open>currentTime\<close> holds \<open>context.currentTime\<close> when the
  clock has an audio context (\<open>None\<close> when \<open>self.context\<close> is null); it does not change
  during one synchronous call. \<open>events\<close> is the queue, \<open>uidmap\<close> the insertion-ordered \<open>Map\<close> of \<open>KDUIDManager\<close>. The model is of a clock
  that has not been destroyed, so the guards \<open>if (destroyed) return\<close> are not shown.
\<close>

record clock =
  currentTime :: "rat option"
  isRunning :: bool
  isPaused :: bool
  c_early :: jsval
  c_late :: jsval
  events :: "nat list"
  uidmap :: "(nat \<times> nat) list"
  next_uid :: nat
  heap :: "event list"
  trace :: "obs list"

datatype error = TypeError | OutOfFuel

text \<open>An event after \<open>destroy\<close>: every field of \<open>self\<close> is \<open>undefined\<close>.\<close>

definition wiped :: event where
  "wiped = \<lparr>deleted = True, uid = None, suspended = False, scheduled = Undefined,
     earliest = Undefined, latest = Undefined, tol_early = Undefined, tol_late = Undefined,
     initialInterval = Undefined, currentInterval = Undefined, repetitions = Undefined,
     elapsedTickCount = 0, stretch = Undefined, onTick = False, onComplete = False,
     onAborted = False, onMissed = False\<rparr>"

definition lookup :: "clock \<Rightarrow> nat \<Rightarrow> event" where
  "lookup s e = (if e < length (heap s) then heap s ! e else wiped)"

definition modify :: "nat \<Rightarrow> (event \<Rightarrow> event) \<Rightarrow> clock \<Rightarrow> clock" where
  "modify e f s = s\<lparr>heap := (heap s)[e := f (lookup s e)]\<rparr>"

definition getCurrentTime :: "clock \<Rightarrow> jsval" where
  "getCurrentTime s = (case currentTime s of Some t \<Rightarrow> Num t | None \<Rightarrow> Null)"

definition invoke :: "handler \<Rightarrow> nat \<Rightarrow> clock \<Rightarrow> clock" where
  "invoke h e s = s\<lparr>trace := trace s @ [Callback e h]\<rparr>"

definition warn :: "string \<Rightarrow> clock \<Rightarrow> clock" where
  "warn m s = s\<lparr>trace := trace s @ [Warn m]\<rparr>"

subsection \<open>KDUIDManager\<close>

text \<open>
  Modelled from the spec: the generator \<open>KDUID\<close> is not part of the sources; identifiers are
  unique, so \<open>generate\<close> is a counter that yields a fresh identifier at every call.
\<close>

definition hasUIDFor :: "clock \<Rightarrow> nat \<Rightarrow> bool" where
  "hasUIDFor s e = (map_of (uidmap s) e \<noteq> None)"

definition generateUIDFor :: "nat \<Rightarrow> clock \<Rightarrow> nat \<times> clock" where
  "generateUIDFor e s =
     (let u = next_uid s in
      (u, s\<lparr>next_uid := Suc u, uidmap := filter (\<lambda>p. fst p \<noteq> e) (uidmap s) @ [(e, u)]\<rparr>))"

definition deleteUIDFor :: "nat \<Rightarrow> clock \<Rightarrow> clock" where
  "deleteUIDFor e s = s\<lparr>uidmap := filter (\<lambda>p. fst p \<noteq> e) (uidmap s)\<rparr>"

subsection \<open>The queue: removeEvent, hasEvent, indexByTime, insertEvent\<close>

definition removeEvent :: "nat \<Rightarrow> clock \<Rightarrow> clock" where
  "removeEvent e s = s\<lparr>events := remove1 e (events s)\<rparr>"

definition hasEvent :: "clock \<Rightarrow> nat \<Rightarrow> bool" where
  "hasEvent s e = (e \<in> set (events s))"

definition deleteEventFromManager :: "nat \<Rightarrow> clock \<Rightarrow> clock" where
  "deleteEventFromManager e s = (if hasUIDFor s e then deleteUIDFor e s else s)"

text \<open>The binary search of \<open>indexByTime\<close> over the keys of the queue, in queue order.\<close>

function search :: "jsval list \<Rightarrow> jsval \<Rightarrow> nat \<Rightarrow> nat \<Rightarrow> nat" where
  "search ks deadline low high =
     (if low < high then
        (let mid = (low + high) div 2;
             early = js_lt (if mid < length ks then ks ! mid else Undefined) deadline
         in if early then search ks deadline (mid + 1) high
            else search ks deadline low mid)
      else low)"
  by pat_completeness auto
termination
  by (relation "measure (\<lambda>(ks, deadline, low, high). high - low)") auto

definition queue_keys :: "clock \<Rightarrow> jsval list" where
  "queue_keys s = map (\<lambda>e. earliest (lookup s e)) (events s)"

definition indexByTime :: "clock \<Rightarrow> jsval \<Rightarrow> nat" where
  "indexByTime s deadline = search (queue_keys s) deadline 0 (length (events s))"

definition insertEvent :: "nat \<Rightarrow> clock \<Rightarrow> clock" where
  "insertEvent e s =
     (let index = indexByTime s (earliest (lookup s e));
          s1 = s\<lparr>events := take index (events s) @ [e] @ drop index (events s)\<rparr>
      in if \<not> hasUIDFor s1 e then snd (generateUIDFor e s1) else s1)"

subsection \<open>KDAudioClockEvent: update, suspend, delete, isLooping\<close>

definition update :: "jsval \<Rightarrow> nat \<Rightarrow> clock \<Rightarrow> clock" where
  "update deadline e s =
     (if deleted (lookup s e) then s
      else modify e (\<lambda>v. v\<lparr>scheduled := deadline,
                             latest := js_add deadline (tol_late v),
                             earliest := js_sub deadline (tol_early v)\<rparr>) s)"

definition ev_suspend :: "nat \<Rightarrow> clock \<Rightarrow> clock" where
  "ev_suspend e s =
     (if deleted (lookup s e) then s
      else modify e (\<lambda>v. v\<lparr>suspended := True\<rparr>) (removeEvent e s))"

definition isLooping :: "event \<Rightarrow> bool" where
  "isLooping v = (\<not> deleted v \<and> js_lt (Num (of_nat (elapsedTickCount v))) (repetitions v))"

text \<open>\<open>destroy\<close> followed by \<open>deleted = true\<close>, the last two steps of \<open>delete\<close>.\<close>

definition destroy :: "nat \<Rightarrow> clock \<Rightarrow> clock" where
  "destroy e s = s\<lparr>heap := (heap s)[e := wiped]\<rparr>"

definition ev_delete :: "nat \<Rightarrow> clock \<Rightarrow> clock" where
  "ev_delete e s =
     (if deleted (lookup s e) then s
      else
        (let v = lookup s e;
             aborted = (isLooping v \<and> onAborted v);
             s1 = (if aborted then invoke OnAborted e s
                   else if onComplete v then invoke OnComplete e s
                   else s)
         in destroy e (deleteEventFromManager e (ev_suspend e s1))))"

subsection \<open>KDAudioClockEvent: schedule and execute\<close>

definition requeue :: "nat \<Rightarrow> clock \<Rightarrow> clock" where
  "requeue e s = insertEvent e (if hasEvent s e then removeEvent e s else s)"

definition observe :: "obs \<Rightarrow> clock \<Rightarrow> clock" where
  "observe x s = s\<lparr>trace := trace s @ [x]\<rparr>"

text \<open>
  The first part of \<open>execute\<close>, up to and including the block that handles the callbacks:
  the event leaves the queue, its tick count is incremented, the firing is classified, and
  the handler for it is invoked.
\<close>

definition fire :: "nat \<Rightarrow> clock \<Rightarrow> clock" where
  "fire e s =
     (let s1 = removeEvent e s;
          s2 = modify e (\<lambda>v. v\<lparr>elapsedTickCount := Suc (elapsedTickCount v)\<rparr>) s1;
          v = lookup s2 e;
          onTime = (js_ge (getCurrentTime s2) (earliest v)
                    \<and> js_le (getCurrentTime s2) (latest v));
          s3 = observe (Fired e onTime) s2
      in if onTime \<and> onTick v then invoke OnTick e s3
         else if onMissed v then invoke OnMissed e s3
         else s3)"

text \<open>
  \<open>execute\<close> reschedules a looping event through \<open>schedule\<close>, and \<open>schedule\<close> executes an event
  whose earliest bound has passed: the two call each other for as long as the event stays due.
  The first argument bounds the depth of that recursion; running out of it is the value
  \<open>Inl OutOfFuel\<close>. \<open>scheduleGuard\<close> tests \<open>self.suspended === undefined\<close>, which holds of
  no event that is not deleted.
\<close>

fun execute :: "nat \<Rightarrow> nat \<Rightarrow> clock \<Rightarrow> error + clock"
  and ev_schedule :: "nat \<Rightarrow> jsval \<Rightarrow> bool \<Rightarrow> nat \<Rightarrow> clock \<Rightarrow> error + clock"
where
  "execute 0 e s = Inl OutOfFuel"
| "execute (Suc n) e s =
     (if deleted (lookup s e) then Inr s
      else if \<not> isRunning s \<or> suspended (lookup s e) then Inr s
      else
        (let s4 = fire e s
         in if deleted (lookup s4 e) then Inr s4
            else if js_ge (Num (of_nat (elapsedTickCount (lookup s4 e))))
                          (repetitions (lookup s4 e))
            then Inr (ev_delete e s4)
            else
              (let w = lookup s4 e;
                   ready = (\<not> hasEvent s4 e \<and> isLooping w \<and> \<not> suspended w);
                   dl = js_add (scheduled w) (js_div1000 (currentInterval w))
               in if ready then ev_schedule n dl False e s4 else Inr s4)))"
| "ev_schedule n deadline sync e s =
     (if deleted (lookup s e) then Inr s
      else
        (let s1 = modify e (\<lambda>v. v\<lparr>suspended := False\<rparr>) s;
             s2 = update deadline e s1
         in if sync then Inr (requeue e s2)
            else if js_ge (getCurrentTime s2) (earliest (lookup s2 e))
            then execute n e s2
            else Inr (requeue e s2)))"

subsection \<open>KDAudioClockEvent: sync, timeStretch, updateWithInterval\<close>

definition ev_sync :: "nat \<Rightarrow> jsval \<Rightarrow> nat \<Rightarrow> clock \<Rightarrow> error + clock" where
  "ev_sync n delayInMs e s =
     (let d = (if delayInMs = Undefined then Num 0 else delayInMs);
          dl = js_add (getCurrentTime s) (js_div1000 d)
      in ev_schedule n dl True e s)"

text \<open>
  The loop \<open>while (time <= latest) deadline += secToMs(currentInterval)\<close> of \<open>timeStretch\<close>;
  \<open>time\<close> and \<open>latest\<close> are constants of the loop.
\<close>

fun walk :: "nat \<Rightarrow> jsval \<Rightarrow> jsval \<Rightarrow> jsval \<Rightarrow> jsval \<Rightarrow> error + jsval" where
  "walk 0 time lat step deadline =
     (if js_le time lat then Inl OutOfFuel else Inr deadline)"
| "walk (Suc n) time lat step deadline =
     (if js_le time lat then walk n time lat step (js_add deadline step) else Inr deadline)"

definition ev_timeStretch :: "nat \<Rightarrow> jsval \<Rightarrow> nat \<Rightarrow> clock \<Rightarrow> error + clock" where
  "ev_timeStretch n ratio e s =
     (if deleted (lookup s e) then Inr s
      else if \<not> isLooping (lookup s e) then Inr s
      else
        (let s1 = (if hasEvent s e then removeEvent e s else s);
             v = lookup s1 e;
             interval = currentInterval v;
             old = js_sub (scheduled v) (js_div1000 interval);
             s2 = modify e (\<lambda>v. v\<lparr>stretch := ratio,
                                     currentInterval := js_mul (initialInterval v) ratio\<rparr>) s1;
             step = js_div1000 (currentInterval (lookup s2 e));
             deadline = js_add old step;
             time = getCurrentTime s2;
             earliest' = js_sub deadline (tol_early v)
         in case (if js_ge time earliest'
                  then walk n time (js_sub deadline (tol_late v)) step deadline
                  else Inr deadline) of
              Inl err \<Rightarrow> Inl err
            | Inr d \<Rightarrow> ev_schedule n d False e s2))"

definition updateWithInterval :: "nat \<Rightarrow> jsval \<Rightarrow> nat \<Rightarrow> clock \<Rightarrow> error + clock" where
  "updateWithInterval n intervalInMs e s =
     (if deleted (lookup s e) then Inr s
      else
        (let s1 = modify e (\<lambda>v. v\<lparr>initialInterval := intervalInMs,
                                     currentInterval := js_mul intervalInMs (stretch v)\<rparr>) s;
             w = lookup s1 e;
             dl = js_add (scheduled w) (js_div1000 (currentInterval w))
         in if \<not> hasEvent s1 e then ev_schedule n dl False e s1 else Inr s1))"

text \<open>
  The public methods of an event (\<open>this.schedule = (deadline) => _self?.schedule(deadline)\<close>
  and the like). \<open>destroy\<close> sets every method of a deleted event to \<open>undefined\<close>, so calling
  one on a deleted event throws a \<open>TypeError\<close>.
\<close>

definition call :: "(nat \<Rightarrow> clock \<Rightarrow> error + clock) \<Rightarrow> nat \<Rightarrow> clock \<Rightarrow> error + clock" where
  "call f e s = (if deleted (lookup s e) then Inl TypeError else f e s)"

section \<open>The clock's scheduling interface\<close>

text \<open>
  \<open>KDAudioClockEventOptions\<close>. A property that is absent reads as \<open>undefined\<close>. The
  \<open>tolerance\<close> property refers to an object: either the caller's own, with optional \<open>early\<close>
  and \<open>late\<close> properties, or the clock's internal \<open>self.tolerance\<close> object itself.
\<close>

record loop_opts =
  l_interval :: jsval
  l_repetitions :: jsval

datatype tolerance_ref = ClockTolerance | OwnTolerance "jsval option" "jsval option"

record options =
  o_delay :: jsval
  o_loop :: "loop_opts option"
  o_tolerance :: "tolerance_ref option"
  o_onTick :: bool
  o_onComplete :: bool
  o_onAborted :: bool
  o_onMissed :: bool

definition loop_interval :: "options \<Rightarrow> jsval" where
  "loop_interval ev = (case o_loop ev of None \<Rightarrow> Undefined | Some l \<Rightarrow> l_interval l)"

definition loop_repetitions :: "options \<Rightarrow> jsval" where
  "loop_repetitions ev = (case o_loop ev of None \<Rightarrow> Undefined | Some l \<Rightarrow> l_repetitions l)"

text \<open>Reading \<open>early\<close> and \<open>late\<close> through a reference to a tolerance object.\<close>

definition read_early :: "clock \<Rightarrow> tolerance_ref \<Rightarrow> jsval" where
  "read_early s r = (case r of ClockTolerance \<Rightarrow> c_early s
                      | OwnTolerance a b \<Rightarrow> (case a of None \<Rightarrow> Undefined | Some x \<Rightarrow> x))"

definition read_late :: "clock \<Rightarrow> tolerance_ref \<Rightarrow> jsval" where
  "read_late s r = (case r of ClockTolerance \<Rightarrow> c_late s
                     | OwnTolerance a b \<Rightarrow> (case b of None \<Rightarrow> Undefined | Some x \<Rightarrow> x))"

text \<open>
  The three assignments of \<open>createEvent\<close>. Writing \<open>self.tolerance.early\<close> into the clock's
  own tolerance object changes nothing.
\<close>

definition fill_tolerance :: "clock \<Rightarrow> options \<Rightarrow> options" where
  "fill_tolerance s opts =
     (let optsNoTolerance = (o_tolerance opts = None);
          optsNoEarly = (case o_tolerance opts of None \<Rightarrow> True | Some ClockTolerance \<Rightarrow> False
                         | Some (OwnTolerance a b) \<Rightarrow> a = None);
          optsNoLate = (case o_tolerance opts of None \<Rightarrow> True | Some ClockTolerance \<Rightarrow> False
                        | Some (OwnTolerance a b) \<Rightarrow> b = None);
          r0 = (if optsNoTolerance then ClockTolerance else the (o_tolerance opts));
          r1 = (if optsNoEarly
                then (case r0 of ClockTolerance \<Rightarrow> ClockTolerance
                      | OwnTolerance a b \<Rightarrow> OwnTolerance (Some (c_early s)) b)
                else r0);
          r2 = (if optsNoLate
                then (case r1 of ClockTolerance \<Rightarrow> ClockTolerance
                      | OwnTolerance a b \<Rightarrow> OwnTolerance a (Some (c_late s)))
                else r1)
      in opts\<lparr>o_tolerance := Some r2\<rparr>)"

text \<open>
  The constructor of \<open>KDAudioClockEvent\<close>: it reads \<open>opts.loop.repetitions\<close> (a \<open>TypeError\<close>
  when \<open>opts.loop\<close> is undefined), allocates the event and ends with \<open>_self.schedule(deadline)\<close>.
\<close>

definition new_event :: "nat \<Rightarrow> options \<Rightarrow> jsval \<Rightarrow> clock \<Rightarrow> error + (nat \<times> clock)" where
  "new_event n opts deadline s =
     (case (o_tolerance opts, o_loop opts) of
        (Some r, Some l) \<Rightarrow>
          (let e = length (heap s);
               v = \<lparr>deleted = False, uid = None, suspended = False, scheduled = Null,
                    earliest = Null, latest = Null,
                    tol_early = read_early s r, tol_late = read_late s r,
                    initialInterval = Null, currentInterval = Null,
                    repetitions = l_repetitions l, elapsedTickCount = 0, stretch = Num 1,
                    onTick = o_onTick opts, onComplete = o_onComplete opts,
                    onAborted = o_onAborted opts, onMissed = o_onMissed opts\<rparr>;
               s1 = s\<lparr>heap := heap s @ [v]\<rparr>
           in case ev_schedule n deadline False e s1 of
                Inl err \<Rightarrow> Inl err
              | Inr s2 \<Rightarrow> Inr (e, s2))
      | _ \<Rightarrow> Inl TypeError)"

definition createEvent ::
  "nat \<Rightarrow> options \<Rightarrow> jsval \<Rightarrow> clock \<Rightarrow> error + (nat \<times> options \<times> clock)" where
  "createEvent n opts deadline s =
     (let opts1 = fill_tolerance s opts
      in case new_event n opts1 deadline s of
           Inl err \<Rightarrow> Inl err
         | Inr (e, s1) \<Rightarrow> Inr (e, opts1, s1))"

definition setUid :: "nat \<Rightarrow> nat \<Rightarrow> clock \<Rightarrow> error + clock" where
  "setUid u e s = Inr (modify e (\<lambda>v. v\<lparr>uid := Some u\<rparr>) s)"

text \<open>The declarative branch of \<open>schedule\<close>, from \<open>const ev = event as KDAudioClockEventOptions\<close>.\<close>

definition resolve_defaults :: "options \<Rightarrow> options" where
  "resolve_defaults ev =
     (if is_number (o_delay ev) \<and> falsy (loop_interval ev) \<and> falsy (loop_repetitions ev)
      then ev\<lparr>o_loop := Some \<lparr>l_interval = Undefined, l_repetitions = Num 1\<rparr>\<rparr>
      else if falsy (o_delay ev) \<and> is_number (loop_interval ev) \<and> falsy (loop_repetitions ev)
      then ev\<lparr>o_loop := Some \<lparr>l_interval = loop_interval ev, l_repetitions = PInf\<rparr>\<rparr>
      else ev)"

definition getDelay :: "options \<Rightarrow> jsval" where
  "getDelay ev =
     (if is_number (o_delay ev) \<and> o_delay ev \<noteq> NaN then js_div1000 (o_delay ev)
      else if is_number (loop_interval ev) \<and> loop_interval ev \<noteq> NaN
      then js_div1000 (loop_interval ev)
      else Num 0)"

definition schedule_options ::
  "nat \<Rightarrow> options \<Rightarrow> jsval \<Rightarrow> clock \<Rightarrow> error + (nat option \<times> options \<times> clock)" where
  "schedule_options n ev0 deadline' s =
     (let ev = resolve_defaults ev0;
          infiteDelay = (o_delay ev = PInf);
          noDelayOrLoop = (o_delay ev = Undefined \<and> o_loop ev = None);
          zeroDelayWithInfiniteRepetitions =
            (falsy (o_delay ev) \<and> falsy (loop_interval ev) \<and> loop_repetitions ev = PInf)
      in if infiteDelay \<or> zeroDelayWithInfiniteRepetitions
         then Inr (None, ev, warn ''delay and/or loop repetitions must not be infinite'' s)
         else if noDelayOrLoop
         then Inr (None, ev,
                   warn ''must set one of delay, loop.interval, or loop.repetitions'' s)
         else
           (let interval0 = getDelay ev;
                interval = (if js_ge interval0 (Num (5 / 100)) then interval0
                            else Num (5 / 1000))
            in case createEvent n ev (js_add deadline' interval) s of
                 Inl err \<Rightarrow> Inl err
               | Inr (evt, ev', s1) \<Rightarrow>
                   (let (u, s2) = generateUIDFor evt s1
                    in case call (setUid u) evt s2 of
                         Inl err \<Rightarrow> Inl err
                       | Inr s3 \<Rightarrow>
                           (case call (updateWithInterval n (js_mul interval (Num 1000)))
                                   evt s3 of
                              Inl err \<Rightarrow> Inl err
                            | Inr s4 \<Rightarrow> Inr (Some evt, ev', s4)))))"

text \<open>
  \<open>schedule\<close>: its argument is an options object, an event or an array of events. The second
  component of the result is the argument after the call (the options object is mutated in
  place).
\<close>

datatype request = Declarative options | Existing nat | ExistingMany "nat list"

datatype returned = RetUndefined | RetEvent nat | RetEvents "nat list"

fun for_each :: "(nat \<Rightarrow> clock \<Rightarrow> error + clock) \<Rightarrow> nat list \<Rightarrow> clock \<Rightarrow> error + clock" where
  "for_each f [] s = Inr s"
| "for_each f (e # es) s = (case f e s of Inl err \<Rightarrow> Inl err | Inr s1 \<Rightarrow> for_each f es s1)"

definition deadlineIsSafe :: "jsval \<Rightarrow> bool" where
  "deadlineIsSafe d = (case d of Num x \<Rightarrow> x \<le> 2 ^ 53 - 1 \<and> - (2 ^ 53 - 1) \<le> x | _ \<Rightarrow> False)"

definition clock_schedule ::
  "nat \<Rightarrow> request \<Rightarrow> jsval \<Rightarrow> clock \<Rightarrow> error + (returned \<times> request \<times> clock)" where
  "clock_schedule n event deadline s =
     (if currentTime s = None \<or> \<not> isRunning s
      then Inr (RetUndefined, event, warn ''make sure to start the clock'' s)
      else
        (let deadline' = (if deadlineIsSafe deadline then deadline else getCurrentTime s)
         in case event of
              Existing e \<Rightarrow>
                (case call (ev_schedule n deadline False) e s of
                   Inl err \<Rightarrow> Inl err
                 | Inr s1 \<Rightarrow> Inr (RetEvent e, event, s1))
            | ExistingMany es \<Rightarrow>
                (case for_each (call (ev_schedule n deadline False)) es s of
                   Inl err \<Rightarrow> Inl err
                 | Inr s1 \<Rightarrow> Inr (RetEvents es, event, s1))
            | Declarative ev \<Rightarrow>
                (case schedule_options n ev deadline' s of
                   Inl err \<Rightarrow> Inl err
                 | Inr (None, ev', s1) \<Rightarrow> Inr (RetUndefined, Declarative ev', s1)
                 | Inr (Some evt, ev', s1) \<Rightarrow> Inr (RetEvent evt, Declarative ev', s1))))"

text \<open>The public method: \<open>this.schedule = (opts) => _self.schedule(opts)\<close>.\<close>

definition public_schedule ::
  "nat \<Rightarrow> request \<Rightarrow> jsval \<Rightarrow> clock \<Rightarrow> error + (returned \<times> request \<times> clock)" where
  "public_schedule n opts deadline s = clock_schedule n opts Undefined s"

definition clock_setTimeout ::
  "nat \<Rightarrow> jsval \<Rightarrow> clock \<Rightarrow> error + (returned \<times> request \<times> clock)" where
  "clock_setTimeout n delayInMs s =
     clock_schedule n
       (Declarative \<lparr>o_delay = delayInMs,
                     o_loop = Some \<lparr>l_interval = Undefined, l_repetitions = Num 1\<rparr>,
                     o_tolerance = None, o_onTick = False, o_onComplete = True,
                     o_onAborted = False, o_onMissed = False\<rparr>) Undefined s"

definition clock_setInterval ::
  "nat \<Rightarrow> jsval \<Rightarrow> clock \<Rightarrow> error + (returned \<times> request \<times> clock)" where
  "clock_setInterval n intervalInMs s =
     clock_schedule n
       (Declarative \<lparr>o_delay = Undefined,
                     o_loop = Some \<lparr>l_interval = intervalInMs, l_repetitions = Undefined\<rparr>,
                     o_tolerance = None, o_onTick = True, o_onComplete = False,
                     o_onAborted = False, o_onMissed = False\<rparr>) Undefined s"

subsection \<open>sync, timeStretch, suspend and delete over one event or an array\<close>

datatype targets = One nat | Many "nat list"

fun on_targets :: "(nat \<Rightarrow> clock \<Rightarrow> error + clock) \<Rightarrow> targets \<Rightarrow> clock \<Rightarrow> error + clock" where
  "on_targets f (One e) s = f e s"
| "on_targets f (Many es) s = for_each f es s"

definition clock_sync :: "nat \<Rightarrow> targets \<Rightarrow> jsval \<Rightarrow> clock \<Rightarrow> error + clock" where
  "clock_sync n evs delay s =
     (if currentTime s = None then Inr s
      else
        (let d = (if delay = Undefined then Num 0 else delay);
             deadline = js_add (getCurrentTime s) (js_div1000 d)
         in on_targets (call (ev_schedule n deadline False)) evs s))"

definition clock_timeStretch :: "nat \<Rightarrow> targets \<Rightarrow> jsval \<Rightarrow> clock \<Rightarrow> error + clock" where
  "clock_timeStretch n evs ratio s = on_targets (call (ev_timeStretch n ratio)) evs s"

definition clock_suspend :: "targets \<Rightarrow> clock \<Rightarrow> error + clock" where
  "clock_suspend evs s = on_targets (call (\<lambda>e s. Inr (ev_suspend e s))) evs s"

definition clock_delete :: "targets \<Rightarrow> clock \<Rightarrow> error + clock" where
  "clock_delete evs s = on_targets (call (\<lambda>e s. Inr (ev_delete e s))) evs s"

subsection \<open>tick\<close>

definition shift :: "clock \<Rightarrow> nat option \<times> clock" where
  "shift s = (case events s of [] \<Rightarrow> (None, s) | e # q \<Rightarrow> (Some e, s\<lparr>events := q\<rparr>))"

definition unshift :: "nat \<Rightarrow> clock \<Rightarrow> clock" where
  "unshift e s = s\<lparr>events := e # events s\<rparr>"

text \<open>
  The loop of \<open>tick\<close>, entered with the entry just taken off the queue. An entry that is
  \<open>undefined\<close> (the queue was empty) or deleted has no earliest bound and is not due.
\<close>

fun tick_loop :: "nat \<Rightarrow> nat option \<Rightarrow> clock \<Rightarrow> error + clock" where
  "tick_loop n None s = Inr s"
| "tick_loop 0 (Some e) s =
     (if js_le (earliest (lookup s e)) (getCurrentTime s) then Inl OutOfFuel
      else Inr (unshift e s))"
| "tick_loop (Suc n) (Some e) s =
     (if js_le (earliest (lookup s e)) (getCurrentTime s)
      then (case execute n e s of
              Inl err \<Rightarrow> Inl err
            | Inr s1 \<Rightarrow> tick_loop n (fst (shift s1)) (snd (shift s1)))
      else Inr (unshift e s))"

definition tick :: "nat \<Rightarrow> clock \<Rightarrow> error + clock" where
  "tick n s =
     (if currentTime s = None then Inr s
      else tick_loop n (fst (shift s)) (snd (shift s)))"

section \<open>Reference states\<close>

text \<open>
  A started clock with the default tolerance \<open>{early: 0.001, late: 0.1}\<close> and no events, at
  clock time \<open>t\<close>; the same clock once the audio time has advanced; and the state after one
  call of \<open>schedule\<close> at time 10 with a wait of one second: event 0, queued for the deadline 11.
\<close>

definition started :: "rat \<Rightarrow> clock" where
  "started t = \<lparr>currentTime = Some t, isRunning = True, isPaused = False,
     c_early = Num (1 / 1000), c_late = Num (1 / 10), events = [], uidmap = [], next_uid = 0,
     heap = [], trace = []\<rparr>"

definition at_time :: "rat \<Rightarrow> clock \<Rightarrow> clock" where
  "at_time t s = s\<lparr>currentTime := Some t\<rparr>"

definition final_state :: "error + ('a \<times> 'b \<times> clock) \<Rightarrow> error + clock" where
  "final_state r = (case r of Inl err \<Rightarrow> Inl err | Inr (x, y, s) \<Rightarrow> Inr s)"

definition pending ::
  "nat \<Rightarrow> jsval \<Rightarrow> jsval \<Rightarrow> jsval \<Rightarrow> jsval \<Rightarrow> bool \<Rightarrow> bool \<Rightarrow> bool \<Rightarrow> bool \<Rightarrow> event" where
  "pending u te tlate iv r a b c d =
     \<lparr>deleted = False, uid = Some u, suspended = False,
      scheduled = Num 11, earliest = js_sub (Num 11) te, latest = js_add (Num 11) tlate,
      tol_early = te, tol_late = tlate,
      initialInterval = iv, currentInterval = iv, repetitions = r,
      elapsedTickCount = 0, stretch = Num 1,
      onTick = a, onComplete = b, onAborted = c, onMissed = d\<rparr>"

definition queued :: "event \<Rightarrow> clock" where
  "queued v = (started 10)\<lparr>events := [0], uidmap := [(0, 1)], next_uid := 2, heap := [v]\<rparr>"

definition default_pending :: "nat \<Rightarrow> jsval \<Rightarrow> bool \<Rightarrow> bool \<Rightarrow> bool \<Rightarrow> bool \<Rightarrow> event" where
  "default_pending u r a b c d = pending u (Num (1 / 1000)) (Num (1 / 10)) (Num 1000) r a b c d"

text \<open>After \<open>setTimeout(f, 1000)\<close>, and after a second \<open>setTimeout(g, 1000)\<close> at the same time.\<close>

definition one_timeout :: clock where
  "one_timeout = queued (default_pending 1 (Num 1) False True False False)"

definition two_timeouts :: clock where
  "two_timeouts = (started 10)\<lparr>events := [1, 0], uidmap := [(0, 1), (1, 3)], next_uid := 4,
     heap := [default_pending 1 (Num 1) False True False False,
              default_pending 3 (Num 1) False True False False]\<rparr>"

text \<open>After \<open>setInterval(f, 1000)\<close>, and the same with the event suspended.\<close>

definition one_interval :: clock where
  "one_interval = queued (default_pending 1 PInf True False False False)"

definition suspended_interval :: clock where
  "suspended_interval =
     (queued ((default_pending 1 PInf True False False False)\<lparr>suspended := True\<rparr>))\<lparr>events := []\<rparr>"

text \<open>After \<open>schedule({delay: 1000, onMissed: f})\<close>: a handler for missed ticks only.\<close>

definition missed_only_opts :: options where
  "missed_only_opts = \<lparr>o_delay = Num 1000, o_loop = None, o_tolerance = None,
     o_onTick = False, o_onComplete = False, o_onAborted = False, o_onMissed = True\<rparr>"

definition missed_only :: clock where
  "missed_only = queued (default_pending 1 (Num 1) False False False True)"

text \<open>
  After \<open>schedule({tolerance: {early: 0.2, late: 0.02}, loop: {interval: 1000}, onTick: f})\<close>.
\<close>

definition wide_opts :: options where
  "wide_opts = \<lparr>o_delay = Undefined,
     o_loop = Some \<lparr>l_interval = Num 1000, l_repetitions = Undefined\<rparr>,
     o_tolerance = Some (OwnTolerance (Some (Num (2 / 10))) (Some (Num (2 / 100)))),
     o_onTick = True, o_onComplete = False, o_onAborted = False, o_onMissed = False\<rparr>"

definition wide_interval :: clock where
  "wide_interval = queued (pending 1 (Num (2 / 10)) (Num (2 / 100)) (Num 1000) PInf
     True False False False)"

text \<open>
  After \<open>setTimeout(f, 1000)\<close>, \<open>setInterval(g, 1000)\<close> and \<open>setTimeout(h, 3000)\<close>, all at
  time 10: two events with the deadline 11 and one with the deadline 13.
\<close>

definition three_events :: clock where
  "three_events = (started 10)\<lparr>events := [1, 0, 2], uidmap := [(0, 1), (1, 3), (2, 5)],
     next_uid := 6,
     heap := [default_pending 1 (Num 1) False True False False,
              default_pending 3 PInf True False False False,
              (default_pending 5 (Num 1) False True False False)
                \<lparr>scheduled := Num 13, earliest := Num (12999 / 1000), latest := Num (131 / 10),
                 initialInterval := Num 3000, currentInterval := Num 3000\<rparr>]\<rparr>"

text \<open>
  The three events after the clock's \<open>schedule(ev, 12)\<close> on the third of them, at time 10:
  the event is at the head of the queue, and its deadline is \<open>undefined\<close>.
\<close>

definition head_rescheduled :: clock where
  "head_rescheduled =
     (modify 2 (\<lambda>v. v\<lparr>scheduled := Undefined, latest := NaN, earliest := NaN\<rparr>)
        three_events)\<lparr>events := [2, 1, 0]\<rparr>"

text \<open>The request \<open>{loop: {interval: 1000}, onTick: f}\<close>, as \<open>setInterval(f, 1000)\<close> makes it.\<close>

definition interval_only_opts :: options where
  "interval_only_opts = \<lparr>o_delay = Undefined,
     o_loop = Some \<lparr>l_interval = Num 1000, l_repetitions = Undefined\<rparr>,
     o_tolerance = None, o_onTick = True, o_onComplete = False, o_onAborted = False,
     o_onMissed = False\<rparr>"

text \<open>The request \<open>{delay: Infinity, onTick: f}\<close>.\<close>

definition infinite_delay_opts :: options where
  "infinite_delay_opts = \<lparr>o_delay = PInf, o_loop = None, o_tolerance = None,
     o_onTick = True, o_onComplete = False, o_onAborted = False, o_onMissed = False\<rparr>"

text \<open>
  The requests that \<open>schedule\<close> is specified to reject: the clock is not running, neither a
  delay nor a loop is given, the delay is infinite, or the repetitions are infinite with
  neither an interval nor a delay.
\<close>

definition invalid_request :: "clock \<Rightarrow> options \<Rightarrow> bool" where
  "invalid_request s ev =
     (currentTime s = None \<or> \<not> isRunning s
      \<or> (o_delay ev = Undefined \<and> o_loop ev = None)
      \<or> o_delay ev = PInf
      \<or> (loop_repetitions ev = PInf \<and> loop_interval ev = Undefined \<and> o_delay ev = Undefined))"

section \<open>Notions used in the statements\<close>

text \<open>
  An event is due when its earliest bound is at or before the current time: the test of the
  loop of \<open>tick\<close> and of \<open>schedule\<close>.
\<close>

definition due :: "clock \<Rightarrow> nat \<Rightarrow> bool" where
  "due s e = js_le (earliest (lookup s e)) (getCurrentTime s)"

text \<open>The classification of a firing: on time when \<open>earliest <= now <= latest\<close>.\<close>

definition on_time :: "clock \<Rightarrow> nat \<Rightarrow> bool" where
  "on_time s e = (js_ge (getCurrentTime s) (earliest (lookup s e))
                  \<and> js_le (getCurrentTime s) (latest (lookup s e)))"

text \<open>The events that fired, in order, among the observations of a trace.\<close>

fun firings :: "obs list \<Rightarrow> nat list" where
  "firings [] = []"
| "firings (Fired e b # xs) = e # firings xs"
| "firings (x # xs) = firings xs"

text \<open>
  The state of an event as \<open>schedule\<close> leaves it when its deadline \<open>d\<close>, its early tolerance
  and its current interval are numbers: it is live and not suspended, its earliest bound is
  the deadline minus the early tolerance, and its interval is positive.
\<close>

definition is_num :: "jsval \<Rightarrow> bool" where
  "is_num v = (case v of Num x \<Rightarrow> True | _ \<Rightarrow> False)"

definition steady :: "clock \<Rightarrow> nat \<Rightarrow> bool" where
  "steady s e =
     (let v = lookup s e
      in \<not> deleted v \<and> \<not> suspended v
         \<and> is_num (scheduled v) \<and> is_num (tol_early v) \<and> is_num (currentInterval v)
         \<and> earliest v = js_sub (scheduled v) (tol_early v)
         \<and> js_lt (Num 0) (currentInterval v))"

text \<open>
  The states in which \<open>tick\<close> is meant to run: the clock is running, and the queue holds
  distinct events in that state, in non-decreasing order of their earliest bounds.
\<close>

definition tick_ready :: "clock \<Rightarrow> bool" where
  "tick_ready s =
     (isRunning s \<and> currentTime s \<noteq> None \<and> distinct (events s)
      \<and> list_all (steady s) (events s)
      \<and> sorted_wrt js_le (queue_keys s))"

text \<open>
  What \<open>schedule\<close> does to an event that stays due after firing: the next deadline is the
  last one plus the current interval.
\<close>

definition advance :: "nat \<Rightarrow> clock \<Rightarrow> clock" where
  "advance e s =
     (let w = lookup s e;
          dl = js_add (scheduled w) (js_div1000 (currentInterval w))
      in update dl e (modify e (\<lambda>v. v\<lparr>suspended := False\<rparr>) s))"

text \<open>
  The effect of executing the event \<open>e\<close>, from state \<open>s\<close> to state \<open>s1\<close>: only \<open>e\<close> fired, the
  other events and their order in the queue are as before, \<open>e\<close> is back in the queue only
  if it is no longer due, and the queue is again as \<open>tick\<close> expects it.
\<close>

definition fired_only :: "nat \<Rightarrow> clock \<Rightarrow> clock \<Rightarrow> bool" where
  "fired_only e s s1 =
     (tick_ready s1 \<and> currentTime s1 = currentTime s
      \<and> (\<forall>x. x \<noteq> e \<longrightarrow> lookup s1 x = lookup s x)
      \<and> filter (\<lambda>x. x \<noteq> e) (events s1) = events s
      \<and> (e \<in> set (events s1) \<longrightarrow> \<not> due s1 e)
      \<and> (\<exists>b rest. trace s1 = trace s @ Fired e b # rest \<and> set (firings rest) \<subseteq> {e}))"

text \<open>
  The effect of the loop of \<open>tick\<close> entered with the events \<open>q\<close> (the entry taken off the
  queue and the rest of the queue), from state \<open>s\<close> to state \<open>s'\<close>: the events that fired
  are those of \<open>q\<close> that were due, in the order of \<open>q\<close>, each in one run of consecutive
  firings; the events of \<open>q\<close> that were not due are in the queue, in the order of \<open>q\<close>, and
  no event that did not fire has changed; none of the events left in the queue is due.
\<close>

definition drained :: "nat list \<Rightarrow> clock \<Rightarrow> clock \<Rightarrow> bool" where
  "drained q s s' =
     (tick_ready s' \<and> currentTime s' = currentTime s
      \<and> (\<forall>x\<in>set (events s'). \<not> due s' x)
      \<and> (\<exists>tr. trace s' = trace s @ tr
             \<and> remdups_adj (firings tr) = filter (due s) q
             \<and> filter (\<lambda>x. x \<notin> set (firings tr)) (events s') = filter (\<lambda>x. \<not> due s x) q
             \<and> (\<forall>x. x \<notin> set (firings tr) \<longrightarrow> lookup s' x = lookup s x)))"

text \<open>
  A declarative request is accepted when it passes the guards of \<open>schedule\<close> after default
  resolution and has a \<open>loop\<close> object for the constructor of the event to read.
\<close>

definition accepted :: "options \<Rightarrow> bool" where
  "accepted opts =
     (let ev = resolve_defaults opts
      in o_delay ev \<noteq> PInf
         \<and> \<not> (falsy (o_delay ev) \<and> falsy (loop_interval ev) \<and> loop_repetitions ev = PInf)
         \<and> \<not> (o_delay ev = Undefined \<and> o_loop ev = None)
         \<and> o_loop ev \<noteq> None)"

text \<open>
  The initial wait of a declarative request, in seconds, from an amount in milliseconds:
  below 50 ms it is 5 ms. The amount is the delay when the delay is a number, and otherwise
  \<open>loop.interval\<close>; an amount that is not a number counts as 0.
\<close>

definition initial_wait :: "rat \<Rightarrow> rat" where
  "initial_wait ms = (if 1 / 20 \<le> ms / 1000 then ms / 1000 else 1 / 200)"

definition wait_of :: "jsval \<Rightarrow> jsval option" where
  "wait_of v = (case v of Num x \<Rightarrow> Some (Num (initial_wait x))
                 | PInf \<Rightarrow> Some PInf
                 | NInf \<Rightarrow> Some (Num (1 / 200))
                 | _ \<Rightarrow> None)"

definition request_wait :: "options \<Rightarrow> jsval" where
  "request_wait opts =
     (case wait_of (o_delay opts) of
        Some w \<Rightarrow> w
      | None \<Rightarrow> (case wait_of (loop_interval opts) of Some w \<Rightarrow> w | None \<Rightarrow> Num (1 / 200)))"

text \<open>
  The early tolerance of the event of a request: the request's own \<open>tolerance.early\<close>, and the
  clock's when the request has none.
\<close>

definition request_early :: "clock \<Rightarrow> options \<Rightarrow> jsval" where
  "request_early s opts =
     (case o_tolerance opts of
        Some (OwnTolerance (Some x) b) \<Rightarrow> x
      | _ \<Rightarrow> c_early s)"

text \<open>
  A call made in state \<open>s\<close> created the event \<open>e\<close>, did not fire it, and left it in the queue
  for the deadline \<open>dl\<close>.
\<close>

definition created :: "clock \<Rightarrow> clock \<Rightarrow> nat \<Rightarrow> jsval \<Rightarrow> bool" where
  "created s s' e dl =
     (e = length (heap s) \<and> e \<in> set (events s') \<and> trace s' = trace s
      \<and> \<not> deleted (lookup s' e) \<and> \<not> suspended (lookup s' e)
      \<and> scheduled (lookup s' e) = dl \<and> elapsedTickCount (lookup s' e) = 0)"

text \<open>
  The three events in a tick at time 13.05: the state in which \<open>tick\<close> executes the interval
  event, first in the queue, and the state in which \<open>execute\<close> has fired it once and set its
  next deadline.
\<close>

definition late_tick :: clock where
  "late_tick = snd (shift (at_time (261 / 20) three_events))"

definition catching_up :: clock where
  "catching_up = advance 1 (fire 1 late_tick)"

section \<open>The reference states are reached through the interface\<close>

lemma one_timeout_reached:
  "final_state (clock_setTimeout 1 (Num 1000) (started 10)) = Inr one_timeout"
  by code_simp

lemma two_timeouts_reached:
  "final_state (clock_setTimeout 1 (Num 1000) one_timeout) = Inr two_timeouts"
  by code_simp

lemma one_interval_reached:
  "final_state (clock_setInterval 1 (Num 1000) (started 10)) = Inr one_interval"
  by code_simp

lemma suspended_interval_reached:
  "clock_suspend (One 0) one_interval = Inr suspended_interval"
  by code_simp

lemma missed_only_reached:
  "final_state (public_schedule 1 (Declarative missed_only_opts) Undefined (started 10))
     = Inr missed_only"
  by code_simp

lemma wide_interval_reached:
  "final_state (public_schedule 1 (Declarative wide_opts) Undefined (started 10))
     = Inr wide_interval"
  by code_simp

lemma three_events_reached:
  "(case final_state (clock_setInterval 1 (Num 1000) one_timeout) of
      Inr s \<Rightarrow> final_state (clock_setTimeout 1 (Num 3000) s)
    | Inl err \<Rightarrow> Inl err) = Inr three_events"
  by code_simp

lemma head_rescheduled_reached:
  "final_state (public_schedule 1 (Existing 2) (Num 12) three_events) = Inr head_rescheduled"
  by code_simp

section \<open>Basic facts about the state\<close>

lemma live_in_range: "\<not> deleted (lookup s e) \<Longrightarrow> e < length (heap s)"
  by (auto simp: lookup_def wiped_def split: if_splits)

lemma lookup_modify:
  "lookup (modify e f s) x = (if x = e \<and> e < length (heap s) then f (lookup s e) else lookup s x)"
  by (auto simp: lookup_def modify_def)

lemma modify_fields [simp]:
  "events (modify e f s) = events s" "uidmap (modify e f s) = uidmap s"
  "next_uid (modify e f s) = next_uid s" "trace (modify e f s) = trace s"
  "currentTime (modify e f s) = currentTime s" "isRunning (modify e f s) = isRunning s"
  "length (heap (modify e f s)) = length (heap s)"
  "c_early (modify e f s) = c_early s" "c_late (modify e f s) = c_late s"
  by (simp_all add: modify_def)

lemma removeEvent_fields [simp]:
  "heap (removeEvent e s) = heap s" "uidmap (removeEvent e s) = uidmap s"
  "next_uid (removeEvent e s) = next_uid s" "trace (removeEvent e s) = trace s"
  "currentTime (removeEvent e s) = currentTime s" "isRunning (removeEvent e s) = isRunning s"
  "events (removeEvent e s) = remove1 e (events s)"
  "lookup (removeEvent e s) x = lookup s x"
  by (simp_all add: removeEvent_def lookup_def)

lemma getCurrentTime_modify [simp]: "getCurrentTime (modify e f s) = getCurrentTime s"
  by (simp add: getCurrentTime_def)

lemma insertEvent_fields [simp]:
  "heap (insertEvent e s) = heap s" "trace (insertEvent e s) = trace s"
  "currentTime (insertEvent e s) = currentTime s" "isRunning (insertEvent e s) = isRunning s"
  "lookup (insertEvent e s) x = lookup s x"
  "events (insertEvent e s)
     = take (indexByTime s (earliest (lookup s e))) (events s) @ e
       # drop (indexByTime s (earliest (lookup s e))) (events s)"
  by (simp_all add: insertEvent_def generateUIDFor_def Let_def lookup_def)

lemma requeue_fields [simp]:
  "heap (requeue e s) = heap s" "trace (requeue e s) = trace s"
  "currentTime (requeue e s) = currentTime s" "isRunning (requeue e s) = isRunning s"
  "lookup (requeue e s) x = lookup s x"
  "e \<in> set (events (requeue e s))"
  by (simp_all add: requeue_def)

lemma observe_fields [simp]:
  "heap (observe x s) = heap s" "trace (observe x s) = trace s @ [x]"
  "currentTime (observe x s) = currentTime s" "isRunning (observe x s) = isRunning s"
  "events (observe x s) = events s" "lookup (observe x s) y = lookup s y"
  by (simp_all add: observe_def lookup_def)

lemma invoke_fields [simp]:
  "heap (invoke h e s) = heap s" "trace (invoke h e s) = trace s @ [Callback e h]"
  "currentTime (invoke h e s) = currentTime s" "isRunning (invoke h e s) = isRunning s"
  "events (invoke h e s) = events s" "lookup (invoke h e s) y = lookup s y"
  by (simp_all add: invoke_def lookup_def)

lemma getCurrentTime_cong: "currentTime s' = currentTime s \<Longrightarrow> getCurrentTime s' = getCurrentTime s"
  by (simp add: getCurrentTime_def)

lemma ev_delete_fields:
  assumes "\<not> deleted (lookup s e)"
  shows "currentTime (ev_delete e s) = currentTime s" "isRunning (ev_delete e s) = isRunning s"
    "events (ev_delete e s) = remove1 e (events s)"
    "x \<noteq> e \<Longrightarrow> lookup (ev_delete e s) x = lookup s x"
    "deleted (lookup (ev_delete e s) e)"
    "\<exists>hs. trace (ev_delete e s) = trace s @ map (Callback e) hs"
proof -
  have rng: "e < length (heap s)" using assms by (rule live_in_range)
  show "currentTime (ev_delete e s) = currentTime s"
    using assms by (simp add: ev_delete_def Let_def destroy_def deleteEventFromManager_def
        deleteUIDFor_def ev_suspend_def)
  show "isRunning (ev_delete e s) = isRunning s"
    using assms by (simp add: ev_delete_def Let_def destroy_def deleteEventFromManager_def
        deleteUIDFor_def ev_suspend_def)
  show "events (ev_delete e s) = remove1 e (events s)"
    using assms by (simp add: ev_delete_def Let_def destroy_def deleteEventFromManager_def
        deleteUIDFor_def ev_suspend_def)
  show "x \<noteq> e \<Longrightarrow> lookup (ev_delete e s) x = lookup s x"
    using assms by (simp add: ev_delete_def Let_def destroy_def deleteEventFromManager_def
        deleteUIDFor_def ev_suspend_def lookup_def modify_def)
  show "deleted (lookup (ev_delete e s) e)"
    using assms rng by (simp add: ev_delete_def Let_def destroy_def deleteEventFromManager_def
        deleteUIDFor_def ev_suspend_def lookup_def modify_def wiped_def)
  have "trace (ev_delete e s) = trace s @ map (Callback e)
          (if isLooping (lookup s e) \<and> onAborted (lookup s e) then [OnAborted]
           else if onComplete (lookup s e) then [OnComplete] else [])"
    using assms by (simp add: ev_delete_def Let_def destroy_def deleteEventFromManager_def
        deleteUIDFor_def ev_suspend_def)
  then show "\<exists>hs. trace (ev_delete e s) = trace s @ map (Callback e) hs" by blast
qed

lemma firings_append [simp]: "firings (xs @ ys) = firings xs @ firings ys"
  by (induction xs rule: firings.induct) auto

lemma firings_callbacks [simp]: "firings (map (Callback e) hs) = []"
  by (induction hs) auto


lemma insertEvent_registered:
  assumes "hasUIDFor s e"
  shows "insertEvent e s
    = s\<lparr>events := take (indexByTime s (earliest (lookup s e))) (events s) @ [e]
                   @ drop (indexByTime s (earliest (lookup s e))) (events s)\<rparr>"
  using assms by (auto simp: insertEvent_def Let_def hasUIDFor_def)

lemma hasUIDFor_cong: "uidmap s' = uidmap s \<Longrightarrow> hasUIDFor s' e = hasUIDFor s e"
  by (simp add: hasUIDFor_def)

lemma generateUIDFor_fields [simp]:
  "heap (snd (generateUIDFor e s)) = heap s" "trace (snd (generateUIDFor e s)) = trace s"
  "currentTime (snd (generateUIDFor e s)) = currentTime s"
  "isRunning (snd (generateUIDFor e s)) = isRunning s"
  "events (snd (generateUIDFor e s)) = events s"
  "lookup (snd (generateUIDFor e s)) x = lookup s x"
  by (simp_all add: generateUIDFor_def Let_def lookup_def)

lemma lookup_fresh [simp]: "lookup (s\<lparr>heap := heap s @ [v]\<rparr>) (length (heap s)) = v"
  by (simp add: lookup_def)

section \<open>Facts about schedule and execute\<close>

lemma ev_schedule_advance:
  assumes "\<not> deleted (lookup s e)"
  shows "ev_schedule n (js_add (scheduled (lookup s e)) (js_div1000 (currentInterval (lookup s e))))
           False e s
         = (if due (advance e s) e then execute n e (advance e s)
            else Inr (requeue e (advance e s)))"
  using assms by (simp add: advance_def Let_def due_def js_ge_def js_le_def)

lemma execute_Suc:
  assumes "\<not> deleted (lookup s e)" and "isRunning s" and "\<not> suspended (lookup s e)"
    and "\<not> deleted (lookup (fire e s) e)"
  shows "execute (Suc n) e s =
     (if js_ge (Num (of_nat (elapsedTickCount (lookup (fire e s) e))))
                    (repetitions (lookup (fire e s) e))
      then Inr (ev_delete e (fire e s))
      else if \<not> hasEvent (fire e s) e \<and> isLooping (lookup (fire e s) e)
              \<and> \<not> suspended (lookup (fire e s) e)
      then (if due (advance e (fire e s)) e then execute n e (advance e (fire e s))
            else Inr (requeue e (advance e (fire e s))))
      else Inr (fire e s))"
  using assms ev_schedule_advance [OF assms(4), of n]
  by (simp add: Let_def del: ev_schedule.simps)

lemma fire_facts:
  assumes "e < length (heap s)"
  shows "lookup (fire e s) e = (lookup s e)\<lparr>elapsedTickCount := Suc (elapsedTickCount (lookup s e))\<rparr>"
    and "\<And>x. x \<noteq> e \<Longrightarrow> lookup (fire e s) x = lookup s x"
    and "events (fire e s) = remove1 e (events s)"
    and "isRunning (fire e s) = isRunning s"
    and "currentTime (fire e s) = currentTime s"
    and "\<exists>b hs. trace (fire e s) = trace s @ Fired e b # map (Callback e) hs"
proof -
  show "lookup (fire e s) e = (lookup s e)\<lparr>elapsedTickCount := Suc (elapsedTickCount (lookup s e))\<rparr>"
    using assms by (simp add: fire_def Let_def lookup_modify)
  show "\<And>x. x \<noteq> e \<Longrightarrow> lookup (fire e s) x = lookup s x"
    by (simp add: fire_def Let_def lookup_modify)
  show "events (fire e s) = remove1 e (events s)"
    by (simp add: fire_def Let_def)
  show "isRunning (fire e s) = isRunning s"
    by (simp add: fire_def Let_def)
  show "currentTime (fire e s) = currentTime s"
    by (simp add: fire_def Let_def)
  define s2 where "s2 = modify e (\<lambda>v. v\<lparr>elapsedTickCount := Suc (elapsedTickCount v)\<rparr>)
                          (removeEvent e s)"
  define v where "v = lookup s2 e"
  define b where "b = (js_ge (getCurrentTime s2) (earliest v)
                    \<and> js_le (getCurrentTime s2) (latest v))"
  have f: "fire e s = (if b \<and> onTick v then invoke OnTick e (observe (Fired e b) s2)
                       else if onMissed v then invoke OnMissed e (observe (Fired e b) s2)
                       else observe (Fired e b) s2)"
    by (simp add: fire_def Let_def s2_def b_def v_def)
  have tr2: "trace s2 = trace s" by (simp add: s2_def)
  have "trace (fire e s) = trace s @ Fired e b # map (Callback e)
          (if b \<and> onTick v then [OnTick]
           else if onMissed v then [OnMissed] else [])"
    unfolding f using tr2 by simp
  then show "\<exists>b hs. trace (fire e s) = trace s @ Fired e b # map (Callback e) hs"
    by blast
qed

lemma advance_facts:
  assumes "\<not> deleted (lookup s e)"
    and "scheduled (lookup s e) = Num d" and "currentInterval (lookup s e) = Num c"
    and "tol_early (lookup s e) = Num te"
  shows "lookup (advance e s) e = (lookup s e)\<lparr>suspended := False,
            scheduled := Num (d + c / 1000),
            latest := js_add (Num (d + c / 1000)) (tol_late (lookup s e)),
            earliest := Num (d + c / 1000 - te)\<rparr>"
    and "\<And>x. x \<noteq> e \<Longrightarrow> lookup (advance e s) x = lookup s x"
    and "events (advance e s) = events s"
    and "isRunning (advance e s) = isRunning s"
    and "currentTime (advance e s) = currentTime s"
    and "trace (advance e s) = trace s"
proof -
  have rng: "e < length (heap s)" using assms(1) by (rule live_in_range)
  show "lookup (advance e s) e = (lookup s e)\<lparr>suspended := False,
            scheduled := Num (d + c / 1000),
            latest := js_add (Num (d + c / 1000)) (tol_late (lookup s e)),
            earliest := Num (d + c / 1000 - te)\<rparr>"
    using assms rng
    by (simp add: advance_def Let_def update_def lookup_modify js_add_def js_sub_def
        js_div1000_def)
  show "\<And>x. x \<noteq> e \<Longrightarrow> lookup (advance e s) x = lookup s x"
    by (simp add: advance_def Let_def update_def lookup_modify)
  show "events (advance e s) = events s"
    by (simp add: advance_def Let_def update_def)
  show "isRunning (advance e s) = isRunning s"
    by (simp add: advance_def Let_def update_def)
  show "currentTime (advance e s) = currentTime s"
    by (simp add: advance_def Let_def update_def)
  show "trace (advance e s) = trace s"
    by (simp add: advance_def Let_def update_def)
qed

lemma execute_last_repetition:
  assumes live: "\<not> deleted (lookup s e)" and run: "isRunning s"
    and ns: "\<not> suspended (lookup s e)"
    and rep: "repetitions (lookup s e) = Num r"
    and last: "r \<le> of_nat (Suc (elapsedTickCount (lookup s e)))"
  shows "\<exists>s'. (\<forall>n. execute (Suc n) e s = Inr s') \<and> deleted (lookup s' e)
           \<and> firings (drop (length (trace s)) (trace s')) = [e]"
proof -
  have rng: "e < length (heap s)" using live by (rule live_in_range)
  define F where "F = fire e s"
  note ff = fire_facts [OF rng, folded F_def]
  have liveF: "\<not> deleted (lookup F e)" using live by (simp add: ff(1))
  have fin: "js_ge (Num (of_nat (elapsedTickCount (lookup F e)))) (repetitions (lookup F e))"
    using rep last by (simp add: ff(1) js_ge_def)
  note ex = execute_Suc [OF live run ns liveF [unfolded F_def], folded F_def]
  define s' where "s' = ev_delete e F"
  have a: "\<forall>n. execute (Suc n) e s = Inr s'" using ex fin by (simp add: s'_def)
  note df = ev_delete_fields [OF liveF, folded s'_def]
  from ff(6) obtain b hs where t1: "trace F = trace s @ Fired e b # map (Callback e) hs"
    by blast
  from df(6) obtain hs' where t2: "trace s' = trace F @ map (Callback e) hs'" by blast
  have "firings (drop (length (trace s)) (trace s')) = [e]"
    by (simp add: t1 t2)
  with a df(5) show ?thesis by (intro exI [of _ s'] conjI)
qed

section \<open>Firing: which handler runs\<close>

text \<open>
  C1. An event that has a handler for missed ticks and none for ticks is fired at time 11,
  exactly its deadline: the firing is classified on-time (\<open>Fired 0 True\<close>), and the handler
  that runs is \<open>onMissed\<close>.
\<close>

theorem on_time_firing_invokes_onMissed:
  "js_ge (getCurrentTime (at_time 11 missed_only)) (earliest (lookup missed_only 0)) \<and>
   js_le (getCurrentTime (at_time 11 missed_only)) (latest (lookup missed_only 0)) \<and>
   (case execute 1 0 (at_time 11 missed_only) of
      Inr s \<Rightarrow> trace s = [Fired 0 True, Callback 0 OnMissed]
    | Inl err \<Rightarrow> False)"
  by code_simp

text \<open>
  What holds of every firing: it is classified on-time exactly when
  \<open>earliest <= now <= latest\<close>; with an \<open>onTick\<close> handler an on-time firing invokes it and
  nothing else; a firing that is missed, or that has no \<open>onTick\<close> handler, invokes \<open>onMissed\<close>
  when there is one; no firing invokes both.
\<close>

lemma fire_trace:
  assumes "e < length (heap s)"
  shows "trace (fire e s) = trace s @ Fired e (on_time s e)
           # (if on_time s e \<and> onTick (lookup s e) then [Callback e OnTick]
              else if onMissed (lookup s e) then [Callback e OnMissed]
              else [])"
proof -
  define s2 where "s2 = modify e (\<lambda>v. v\<lparr>elapsedTickCount := Suc (elapsedTickCount v)\<rparr>)
                          (removeEvent e s)"
  define v where "v = lookup s2 e"
  define b where "b = (js_ge (getCurrentTime s2) (earliest v)
                    \<and> js_le (getCurrentTime s2) (latest v))"
  have f: "fire e s = (if b \<and> onTick v then invoke OnTick e (observe (Fired e b) s2)
                       else if onMissed v then invoke OnMissed e (observe (Fired e b) s2)
                       else observe (Fired e b) s2)"
    by (simp add: fire_def Let_def s2_def b_def v_def)
  have tr2: "trace s2 = trace s" by (simp add: s2_def)
  have l: "lookup (removeEvent e s) e = lookup s e"
    by (simp add: lookup_def)
  have h: "e < length (heap (removeEvent e s))"
    using assms by simp
  have v: "v = (lookup s e)\<lparr>elapsedTickCount := Suc (elapsedTickCount (lookup s e))\<rparr>"
    using h by (simp add: v_def s2_def lookup_modify l)
  have now: "getCurrentTime s2 = getCurrentTime s"
    by (simp add: s2_def getCurrentTime_def)
  have b: "b = on_time s e"
    by (simp add: b_def on_time_def now v)
  have "trace (fire e s) = trace s @ Fired e b
          # (if b \<and> onTick v then [Callback e OnTick]
             else if onMissed v then [Callback e OnMissed] else [])"
    unfolding f using tr2 by simp
  then show ?thesis
    by (simp add: b v)
qed

section \<open>Deleting an event: which terminal handler runs\<close>

text \<open>
  C7. The event of \<open>setTimeout(f, 1000)\<close> has not fired (0 of 1 repetitions, so it is still
  looping) and has no \<open>onAborted\<close> handler; deleting it invokes its \<open>onComplete\<close> handler.
\<close>

theorem delete_pending_timeout_invokes_onComplete:
  "isLooping (lookup one_timeout 0) \<and>
   (case clock_delete (One 0) one_timeout of
      Inr s \<Rightarrow> trace s = [Callback 0 OnComplete]
    | Inl err \<Rightarrow> False)"
  by code_simp

text \<open>
  What holds of every deletion of a live event: \<open>onAborted\<close> runs when the event is still
  looping and has that handler; otherwise \<open>onComplete\<close> runs when the event has one.
\<close>

lemma ev_delete_trace:
  assumes "\<not> deleted (lookup s e)"
  shows "trace (ev_delete e s) = trace s
           @ (if isLooping (lookup s e) \<and> onAborted (lookup s e) then [Callback e OnAborted]
              else if onComplete (lookup s e) then [Callback e OnComplete]
              else [])"
  using assms by (simp add: ev_delete_def Let_def destroy_def deleteEventFromManager_def
      deleteUIDFor_def ev_suspend_def)

section \<open>Rejected requests and the caller's options object\<close>

lemma schedule_options_request:
  assumes "schedule_options n ev d s = Inr (ro, ev', s')"
  shows "(ro = None \<longrightarrow> ev' = resolve_defaults ev)
       \<and> (ro \<noteq> None \<longrightarrow> ev' = fill_tolerance s (resolve_defaults ev))"
  using assms
  by (auto simp: schedule_options_def createEvent_def Let_def
           split: if_splits sum.splits prod.splits)

text \<open>
  C9, as the code has it. Every invalid request is rejected: \<open>schedule\<close> returns
  \<open>undefined\<close>, the clock's state changes by exactly one warning appended to the trace (no
  event is created, no identifier is bound, the queue is unchanged), and the request object
  is unchanged unless the delay is infinite and default resolution has already written
  \<open>loop = {repetitions: 1}\<close> into it.
\<close>

theorem invalid_request_rejected:
  assumes "invalid_request s ev"
  shows "\<exists>msg. clock_schedule n (Declarative ev) deadline s =
           Inr (RetUndefined,
                Declarative (if currentTime s \<noteq> None \<and> isRunning s \<and> o_delay ev = PInf
                                \<and> falsy (loop_interval ev) \<and> falsy (loop_repetitions ev)
                             then ev\<lparr>o_loop := Some \<lparr>l_interval = Undefined, l_repetitions = Num 1\<rparr>\<rparr>
                             else ev),
                s\<lparr>trace := trace s @ [Warn msg]\<rparr>)"
proof (cases "currentTime s = None \<or> \<not> isRunning s")
  case True
  then show ?thesis
    by (auto simp: clock_schedule_def warn_def)
next
  case False
  then have run: "currentTime s \<noteq> None" "isRunning s" by auto
  from assms False consider
      (none) "o_delay ev = Undefined" "o_loop ev = None"
    | (inf) "o_delay ev = PInf"
    | (zero) "loop_repetitions ev = PInf" "loop_interval ev = Undefined" "o_delay ev = Undefined"
    by (auto simp: invalid_request_def)
  then show ?thesis
  proof cases
    case none
    then show ?thesis using run
      by (auto simp: clock_schedule_def schedule_options_def resolve_defaults_def warn_def
          Let_def is_number_def falsy_def loop_interval_def loop_repetitions_def)
  next
    case inf
    then show ?thesis using run
      by (auto simp: clock_schedule_def schedule_options_def resolve_defaults_def warn_def
          Let_def is_number_def falsy_def)
  next
    case zero
    then show ?thesis using run
      by (auto simp: clock_schedule_def schedule_options_def resolve_defaults_def warn_def
          Let_def is_number_def falsy_def)
  qed
qed


text \<open>The theorem at the request \<open>{delay: Infinity}\<close> on a started clock.\<close>

theorem invalid_request_rejected_witness:
  "invalid_request (started 10) infinite_delay_opts \<and>
   (\<exists>msg. clock_schedule 1 (Declarative infinite_delay_opts) Undefined (started 10) =
      Inr (RetUndefined,
           Declarative (infinite_delay_opts
             \<lparr>o_loop := Some \<lparr>l_interval = Undefined, l_repetitions = Num 1\<rparr>\<rparr>),
           (started 10)\<lparr>trace := trace (started 10) @ [Warn msg]\<rparr>))"
proof -
  have h: "invalid_request (started 10) infinite_delay_opts"
    by (simp add: invalid_request_def infinite_delay_opts_def)
  have c: "currentTime (started 10) \<noteq> None \<and> isRunning (started 10)
           \<and> o_delay infinite_delay_opts = PInf
           \<and> falsy (loop_interval infinite_delay_opts)
           \<and> falsy (loop_repetitions infinite_delay_opts)"
    by (simp add: started_def infinite_delay_opts_def falsy_def loop_interval_def
        loop_repetitions_def)
  from invalid_request_rejected [OF h, of 1 Undefined] c h show ?thesis
    by simp
qed

text \<open>
  C9 as stated fails: the rejected request \<open>{delay: Infinity}\<close> comes back with a \<open>loop\<close>
  property that it did not have.
\<close>

theorem rejected_infinite_delay_mutates_request:
  "clock_schedule 1 (Declarative infinite_delay_opts) Undefined (started 10)
     = Inr (RetUndefined,
            Declarative (infinite_delay_opts
              \<lparr>o_loop := Some \<lparr>l_interval = Undefined, l_repetitions = Num 1\<rparr>\<rparr>),
            warn ''delay and/or loop repetitions must not be infinite'' (started 10))
   \<and> o_loop infinite_delay_opts = None"
  by code_simp

text \<open>
  C10. When \<open>schedule\<close> on a running clock returns from a declarative request, the request
  object has been written to: default resolution stores \<open>loop = {repetitions: 1}\<close> or
  \<open>loop.repetitions = Infinity\<close>; when an event is created the \<open>tolerance\<close> property is
  filled from the clock's tolerance, and a request without one now refers to the clock's own
  tolerance object; and the rejected request with an infinite delay and no loop has been
  given a \<open>loop\<close> property.
\<close>

theorem schedule_mutates_request:
  assumes "currentTime s \<noteq> None" and "isRunning s"
    and "clock_schedule n (Declarative ev) deadline s = Inr (r, q, s')"
  shows "\<exists>ev'. q = Declarative ev'
     \<and> (is_number (o_delay ev) \<and> falsy (loop_interval ev) \<and> falsy (loop_repetitions ev)
          \<longrightarrow> o_loop ev' = Some \<lparr>l_interval = Undefined, l_repetitions = Num 1\<rparr>)
     \<and> (\<not> (is_number (o_delay ev) \<and> falsy (loop_interval ev) \<and> falsy (loop_repetitions ev))
          \<and> falsy (o_delay ev) \<and> is_number (loop_interval ev) \<and> falsy (loop_repetitions ev)
          \<longrightarrow> o_loop ev' = Some \<lparr>l_interval = loop_interval ev, l_repetitions = PInf\<rparr>)
     \<and> (r \<noteq> RetUndefined \<and> o_tolerance ev = None \<longrightarrow> o_tolerance ev' = Some ClockTolerance)
     \<and> (r \<noteq> RetUndefined \<longrightarrow> o_tolerance ev' = o_tolerance (fill_tolerance s ev))
     \<and> (o_delay ev = PInf \<and> o_loop ev = None
          \<longrightarrow> r = RetUndefined \<and> o_loop ev' \<noteq> o_loop ev)"
proof -
  from assms obtain ro ev' where
    so: "schedule_options n ev (if deadlineIsSafe deadline then deadline else getCurrentTime s) s
           = Inr (ro, ev', s')"
    and q: "q = Declarative ev'"
    and r: "r = (case ro of None \<Rightarrow> RetUndefined | Some evt \<Rightarrow> RetEvent evt)"
    by (auto simp: clock_schedule_def Let_def split: sum.splits prod.splits option.splits)
  from schedule_options_request [OF so]
  have ev': "ro = None \<longrightarrow> ev' = resolve_defaults ev"
    "ro \<noteq> None \<longrightarrow> ev' = fill_tolerance s (resolve_defaults ev)" by auto
  have loop_fill: "\<And>x. o_loop (fill_tolerance s x) = o_loop x"
    by (simp add: fill_tolerance_def Let_def)
  have tol_res: "o_tolerance (resolve_defaults ev) = o_tolerance ev"
    by (simp add: resolve_defaults_def)
  have fill_res: "o_tolerance (fill_tolerance s (resolve_defaults ev))
                    = o_tolerance (fill_tolerance s ev)"
    by (simp add: fill_tolerance_def Let_def tol_res)
  have loop': "o_loop ev' = o_loop (resolve_defaults ev)"
    using ev' loop_fill by (cases ro) auto
  have a: "is_number (o_delay ev) \<and> falsy (loop_interval ev) \<and> falsy (loop_repetitions ev)
          \<longrightarrow> o_loop ev' = Some \<lparr>l_interval = Undefined, l_repetitions = Num 1\<rparr>"
    using loop' by (simp add: resolve_defaults_def)
  have b: "\<not> (is_number (o_delay ev) \<and> falsy (loop_interval ev) \<and> falsy (loop_repetitions ev))
          \<and> falsy (o_delay ev) \<and> is_number (loop_interval ev) \<and> falsy (loop_repetitions ev)
          \<longrightarrow> o_loop ev' = Some \<lparr>l_interval = loop_interval ev, l_repetitions = PInf\<rparr>"
    using loop' by (auto simp: resolve_defaults_def)
  have c: "r \<noteq> RetUndefined \<longrightarrow> o_tolerance ev' = o_tolerance (fill_tolerance s ev)"
    using ev' r fill_res by (cases ro) auto
  have d: "r \<noteq> RetUndefined \<and> o_tolerance ev = None \<longrightarrow> o_tolerance ev' = Some ClockTolerance"
    using c by (auto simp: fill_tolerance_def Let_def)
  have e: "o_delay ev = PInf \<and> o_loop ev = None \<longrightarrow> r = RetUndefined \<and> o_loop ev' \<noteq> o_loop ev"
  proof (intro impI conjI)
    assume h: "o_delay ev = PInf \<and> o_loop ev = None"
    then have rd: "resolve_defaults ev
        = ev\<lparr>o_loop := Some \<lparr>l_interval = Undefined, l_repetitions = Num 1\<rparr>\<rparr>"
      by (simp add: resolve_defaults_def is_number_def falsy_def loop_interval_def
          loop_repetitions_def)
    from so h rd have "ro = None"
      by (auto simp: schedule_options_def Let_def split: if_splits)
    then show "r = RetUndefined" using r by simp
    show "o_loop ev' \<noteq> o_loop ev" using loop' rd h by simp
  qed
  from q a b c d e show ?thesis by blast
qed


text \<open>
  The theorem at an accepted request (\<open>{delay: 1000, onMissed: f}\<close>) and at a rejected one
  (\<open>{delay: Infinity, onTick: f}\<close>).
\<close>

theorem schedule_mutates_request_witness:
  "(\<exists>r q s' ev'.
      clock_schedule 1 (Declarative missed_only_opts) Undefined (started 10) = Inr (r, q, s')
      \<and> q = Declarative ev' \<and> r \<noteq> RetUndefined
      \<and> o_loop ev' = Some \<lparr>l_interval = Undefined, l_repetitions = Num 1\<rparr>
      \<and> o_tolerance ev' = Some ClockTolerance)
   \<and> (\<exists>q s' ev'.
      clock_schedule 1 (Declarative infinite_delay_opts) Undefined (started 10)
        = Inr (RetUndefined, q, s')
      \<and> q = Declarative ev' \<and> o_loop ev' \<noteq> o_loop infinite_delay_opts)"
proof -
  have run: "currentTime (started 10) \<noteq> None" "isRunning (started 10)"
    by (simp_all add: started_def)
  have a:
    "clock_schedule 1 (Declarative missed_only_opts) Undefined (started 10)
       = Inr (RetEvent 0,
              Declarative (missed_only_opts
                \<lparr>o_loop := Some \<lparr>l_interval = Undefined, l_repetitions = Num 1\<rparr>,
                 o_tolerance := Some ClockTolerance\<rparr>),
              missed_only)"
    by code_simp
  have ha: "is_number (o_delay missed_only_opts) \<and> falsy (loop_interval missed_only_opts)
      \<and> falsy (loop_repetitions missed_only_opts)" "o_tolerance missed_only_opts = None"
    by (simp_all add: missed_only_opts_def is_number_def falsy_def loop_interval_def
        loop_repetitions_def)
  from schedule_mutates_request [OF run a] ha
  have first: "\<exists>ev'. Declarative (missed_only_opts
                \<lparr>o_loop := Some \<lparr>l_interval = Undefined, l_repetitions = Num 1\<rparr>,
                 o_tolerance := Some ClockTolerance\<rparr>) = Declarative ev'
      \<and> RetEvent 0 \<noteq> RetUndefined
      \<and> o_loop ev' = Some \<lparr>l_interval = Undefined, l_repetitions = Num 1\<rparr>
      \<and> o_tolerance ev' = Some ClockTolerance"
    by auto
  have b:
    "clock_schedule 1 (Declarative infinite_delay_opts) Undefined (started 10)
       = Inr (RetUndefined,
              Declarative (infinite_delay_opts
                \<lparr>o_loop := Some \<lparr>l_interval = Undefined, l_repetitions = Num 1\<rparr>\<rparr>),
              warn ''delay and/or loop repetitions must not be infinite'' (started 10))"
    by code_simp
  have hb: "o_delay infinite_delay_opts = PInf \<and> o_loop infinite_delay_opts = None"
    by (simp add: infinite_delay_opts_def)
  from schedule_mutates_request [OF run b] hb
  have second: "\<exists>ev'. Declarative (infinite_delay_opts
                \<lparr>o_loop := Some \<lparr>l_interval = Undefined, l_repetitions = Num 1\<rparr>\<rparr>)
                  = Declarative ev'
      \<and> o_loop ev' \<noteq> o_loop infinite_delay_opts"
    by auto
  from a first b second show ?thesis by blast
qed

section \<open>Suspending and scheduling an existing event\<close>

lemma num_add_NaN: "num_add NaN b = NaN" "num_add a NaN = NaN"
  by (cases b; simp) (cases a; simp)

text \<open>
  C6. The interval event is suspended and then scheduled for the deadline 12 through the
  clock's \<open>schedule(e, 12)\<close>. The public method passes no deadline on: the event is back in
  the queue with the same identifier and the same tick count, but its scheduled deadline is
  \<open>undefined\<close> and not 12, and its earliest and latest bounds are \<open>NaN\<close>.
\<close>

theorem suspend_then_schedule_loses_deadline:
  "clock_suspend (One 0) one_interval = Inr suspended_interval
   \<and> (case public_schedule 2 (Existing 0) (Num 12) suspended_interval of
        Inr (r, q, s) \<Rightarrow> r = RetEvent 0 \<and> events s = [0]
            \<and> scheduled (lookup s 0) = Undefined
            \<and> earliest (lookup s 0) = NaN \<and> latest (lookup s 0) = NaN
            \<and> uid (lookup s 0) = uid (lookup one_interval 0)
            \<and> elapsedTickCount (lookup s 0) = elapsedTickCount (lookup one_interval 0)
      | Inl err \<Rightarrow> False)"
  by code_simp

text \<open>
  The same for every live event of a running clock and every deadline \<open>t\<close>: the clock's
  \<open>schedule(e, t)\<close> returns the event, queued, with the scheduled deadline \<open>undefined\<close>.
\<close>

lemma public_schedule_existing_loses_deadline:
  assumes live: "\<not> deleted (lookup s e)" and run: "isRunning s"
    and now: "currentTime s = Some now"
  shows "\<exists>s'. public_schedule n (Existing e) t s = Inr (RetEvent e, Existing e, s')
     \<and> e \<in> set (events s')
     \<and> scheduled (lookup s' e) = Undefined
     \<and> earliest (lookup s' e) = NaN
     \<and> elapsedTickCount (lookup s' e) = elapsedTickCount (lookup s e)
     \<and> trace s' = trace s"
proof -
  have rng: "e < length (heap s)" using live by (rule live_in_range)
  define s3 where "s3 = update Undefined e (modify e (\<lambda>v. v\<lparr>suspended := False\<rparr>) s)"
  have l3: "lookup s3 e = (lookup s e)\<lparr>suspended := False, scheduled := Undefined,
              latest := NaN, earliest := NaN\<rparr>"
    using live rng
    by (simp add: s3_def update_def lookup_modify js_add_def js_sub_def num_add_NaN)
  have t3: "getCurrentTime s3 = Num now"
    using now by (simp add: getCurrentTime_def s3_def update_def)
  have notdue: "\<not> js_ge (getCurrentTime s3) (earliest (lookup s3 e))"
    by (simp add: t3 l3 js_ge_def)
  define s' where "s' = requeue e s3"
  have sched: "ev_schedule n Undefined False e s = Inr s'"
    using live notdue by (simp add: s3_def [symmetric] Let_def s'_def)
  have res: "public_schedule n (Existing e) t s = Inr (RetEvent e, Existing e, s')"
    using run now live sched
    by (simp add: public_schedule_def clock_schedule_def call_def Let_def
        del: ev_schedule.simps)
  have tr: "trace s' = trace s" by (simp add: s'_def s3_def update_def)
  have l': "lookup s' e = lookup s3 e" by (simp add: s'_def)
  have mem: "e \<in> set (events s')" by (simp add: s'_def)
  from res mem tr show ?thesis
    by (intro exI [of _ s']) (simp add: l' l3)
qed

text \<open>
  The event's own \<open>schedule(t)\<close> does receive the deadline. For a live, registered event
  whose earliest bound at the deadline \<open>t\<close> is still in the future (\<open>now < t - early\<close>),
  the event's \<open>suspend()\<close> followed by its \<open>schedule(t)\<close> puts the event back into the queue
  with scheduled deadline \<open>t\<close>, the same identifier and the same loop state.
\<close>

lemma suspend_then_event_schedule_restores:
  assumes live: "\<not> deleted (lookup s e)"
    and run: "isRunning s" and now: "currentTime s = Some now"
    and reg: "hasUIDFor s e"
    and tol: "tol_early (lookup s e) = Num te"
    and future: "now < t - te"
  shows "\<exists>s1 s2. clock_suspend (One e) s = Inr s1
     \<and> call (ev_schedule n (Num t) False) e s1 = Inr s2
     \<and> e \<in> set (events s2)
     \<and> \<not> suspended (lookup s2 e)
     \<and> scheduled (lookup s2 e) = Num t
     \<and> uid (lookup s2 e) = uid (lookup s e)
     \<and> uidmap s2 = uidmap s
     \<and> elapsedTickCount (lookup s2 e) = elapsedTickCount (lookup s e)
     \<and> repetitions (lookup s2 e) = repetitions (lookup s e)
     \<and> initialInterval (lookup s2 e) = initialInterval (lookup s e)
     \<and> currentInterval (lookup s2 e) = currentInterval (lookup s e)
     \<and> trace s2 = trace s"
proof -
  have rng: "e < length (heap s)" using live by (rule live_in_range)
  define s1 where "s1 = ev_suspend e s"
  have s1: "clock_suspend (One e) s = Inr s1"
    using live by (simp add: clock_suspend_def call_def s1_def)
  have s1_eq: "s1 = modify e (\<lambda>v. v\<lparr>suspended := True\<rparr>) (removeEvent e s)"
    using live by (simp add: s1_def ev_suspend_def)
  have live1: "\<not> deleted (lookup s1 e)"
    using live rng by (simp add: s1_eq lookup_modify)
  define s3 where "s3 = update (Num t) e (modify e (\<lambda>v. v\<lparr>suspended := False\<rparr>) s1)"
  have l3: "lookup s3 e = (lookup s e)\<lparr>suspended := False, scheduled := Num t,
              latest := js_add (Num t) (tol_late (lookup s e)),
              earliest := js_sub (Num t) (tol_early (lookup s e))\<rparr>"
    using live rng by (simp add: s3_def update_def s1_eq lookup_modify)
  have t3: "getCurrentTime s3 = Num now"
    using now by (simp add: getCurrentTime_def s3_def update_def s1_eq)
  have notdue: "\<not> js_ge (getCurrentTime s3) (earliest (lookup s3 e))"
    using future tol by (simp add: t3 l3 js_ge_def js_sub_def)
  have reg3: "hasUIDFor s3 e"
    using reg by (simp add: hasUIDFor_def s3_def update_def s1_eq)
  define s4 where "s4 = (if hasEvent s3 e then removeEvent e s3 else s3)"
  have reg4: "hasUIDFor s4 e" using reg3 by (simp add: s4_def hasUIDFor_def)
  define s2 where "s2 = requeue e s3"
  have s2_eq: "s2 = s4\<lparr>events := take (indexByTime s4 (earliest (lookup s4 e))) (events s4) @ [e]
                   @ drop (indexByTime s4 (earliest (lookup s4 e))) (events s4)\<rparr>"
    unfolding s2_def requeue_def s4_def [symmetric] by (rule insertEvent_registered [OF reg4])
  have l4: "lookup s4 x = lookup s3 x" for x by (simp add: s4_def)
  have l2: "lookup s2 x = lookup s3 x" for x
    by (simp add: s2_eq lookup_def) (simp add: s4_def)
  have sched: "ev_schedule n (Num t) False e s1 = Inr s2"
    using live1 notdue by (simp add: s3_def [symmetric] Let_def s2_def)
  have res: "call (ev_schedule n (Num t) False) e s1 = Inr s2"
    using live1 sched by (simp add: call_def del: ev_schedule.simps)
  have mem: "e \<in> set (events s2)" by (simp add: s2_eq)
  have um: "uidmap s2 = uidmap s"
    by (simp add: s2_eq s4_def s3_def update_def s1_eq)
  have tr: "trace s2 = trace s"
    by (simp add: s2_eq s4_def s3_def update_def s1_eq)
  from s1 res mem um tr show ?thesis
    by (intro exI [of _ s1] exI [of _ s2]) (simp add: l2 l3)
qed

text \<open>
  By design an event scheduled for a deadline whose earliest bound has passed is executed at
  once: the suspended interval event, scheduled through its own \<open>schedule(10)\<close> at clock time
  10, fires inside the call and is queued for 11.
\<close>

lemma event_schedule_past_due_executes:
  "(case call (ev_schedule 2 (Num 10) False) 0 suspended_interval of
        Inr s \<Rightarrow> trace s = [Fired 0 True, Callback 0 OnTick]
            \<and> elapsedTickCount (lookup s 0) = 1
            \<and> scheduled (lookup s 0) = Num 11
      | Inl err \<Rightarrow> False)"
  by code_simp

section \<open>sync\<close>

text \<open>
  C5. The clock's \<open>sync\<close> is called on the interval event with the default delay, at the
  time the event was created. It calls the event's public \<open>schedule(deadline)\<close>, which tests
  whether the earliest bound has passed; it has, so the event is executed inside the call:
  its handler runs, its tick count becomes 1, and it is requeued for 11 and not for the
  current time 10.
\<close>

theorem clock_sync_default_delay_executes:
  "(case clock_sync 2 (One 0) Undefined one_interval of
      Inr s \<Rightarrow> trace s = [Fired 0 True, Callback 0 OnTick]
            \<and> elapsedTickCount (lookup s 0) = 1
            \<and> scheduled (lookup s 0) = Num 11
    | Inl err \<Rightarrow> False)"
  by code_simp

text \<open>The event's own \<open>sync\<close> passes \<open>sync = true\<close> and only requeues.\<close>

lemma event_sync_requeues:
  "(case call (ev_sync 2 Undefined) 0 one_interval of
      Inr s \<Rightarrow> trace s = [] \<and> elapsedTickCount (lookup s 0) = 0
            \<and> scheduled (lookup s 0) = Num 10 \<and> events s = [0]
    | Inl err \<Rightarrow> False)"
  by code_simp

text \<open>With a delay beyond the early tolerance the clock's \<open>sync\<close> requeues as well.\<close>

lemma clock_sync_later_requeues:
  "(case clock_sync 2 (One 0) (Num 500) one_interval of
      Inr s \<Rightarrow> trace s = [] \<and> elapsedTickCount (lookup s 0) = 0
            \<and> scheduled (lookup s 0) = Num (21 / 2) \<and> events s = [0]
    | Inl err \<Rightarrow> False)"
  by code_simp

section \<open>timeStretch\<close>

text \<open>The loop of \<open>timeStretch\<close> changes neither side of its condition.\<close>

lemma walk_never: "js_le time lat \<Longrightarrow> walk n time lat step d = Inl OutOfFuel"
  by (induction n arbitrary: d) auto

lemma walk_skipped: "\<not> js_le time lat \<Longrightarrow> walk n time lat step d = Inr d"
  by (cases n) auto

text \<open>
  C8. The interval event with tolerance \<open>{early: 0.2, late: 0.02}\<close>, scheduled for 11 with an
  interval of one second, is stretched by 0.1 at time 10. The candidate deadline is 10.1, its
  earliest bound 9.9 has passed, and \<open>time <= deadline - late\<close> holds: the loop is entered
  and never left, whatever the bound on the number of iterations.
\<close>

theorem timeStretch_walk_never_returns:
  "clock_timeStretch n (One 0) (Num (1 / 10)) wide_interval = Inl OutOfFuel"
  by (simp add: clock_timeStretch_def call_def ev_timeStretch_def wide_interval_def queued_def
      pending_def started_def lookup_def modify_def hasEvent_def removeEvent_def
      isLooping_def js_lt_def js_le_def js_ge_def js_add_def js_sub_def js_mul_def
      js_div1000_def getCurrentTime_def Let_def walk_never)

text \<open>
  With the default tolerance the loop is never entered. Stretched by 0.1 at time 10.55, the
  interval event is scheduled for the deadline 10.1, which has passed, and fires five times
  inside the call.
\<close>

lemma timeStretch_past_due_burst:
  "(case clock_timeStretch 6 (One 0) (Num (1 / 10)) (at_time (211 / 20) one_interval) of
      Inr s \<Rightarrow> trace s = [Fired 0 False, Fired 0 False, Fired 0 False, Fired 0 False,
           Fired 0 True, Callback 0 OnTick]
    | Inl err \<Rightarrow> False)"
  by code_simp

section \<open>Declarative requests: the first deadline\<close>


text \<open>
  With both a delay of 500 and \<open>loop.interval = 1000\<close> the event's interval is the delay:
  \<open>loop.interval\<close> is never read once a delay is given.
\<close>

lemma delay_and_interval_repeats_at_delay:
  "(case public_schedule 1 (Declarative
      \<lparr>o_delay = Num 500, o_loop = Some \<lparr>l_interval = Num 1000, l_repetitions = Num 3\<rparr>,
       o_tolerance = None, o_onTick = True, o_onComplete = False, o_onAborted = False,
       o_onMissed = False\<rparr>) Undefined (started 10) of
      Inr (r, q, s) \<Rightarrow> scheduled (lookup s 0) = Num (21 / 2)
          \<and> currentInterval (lookup s 0) = Num 500
    | Inl err \<Rightarrow> False)"
  by code_simp

text \<open>
  The initial wait and the early tolerance as \<open>schedule\<close> and \<open>createEvent\<close> compute them.
\<close>

lemma request_wait_code:
  "(if js_ge (getDelay (resolve_defaults opts)) (Num (5 / 100))
    then getDelay (resolve_defaults opts) else Num (5 / 1000)) = request_wait opts"
proof -
  have li: "loop_interval (resolve_defaults opts) = loop_interval opts
            \<or> (is_number (o_delay opts) \<and> falsy (loop_interval opts)
                \<and> loop_interval (resolve_defaults opts) = Undefined)"
    by (simp add: resolve_defaults_def loop_interval_def)
  have d: "o_delay (resolve_defaults opts) = o_delay opts"
    by (simp add: resolve_defaults_def)
  show ?thesis
  proof (cases "wait_of (o_delay opts)")
    case (Some w)
    then show ?thesis
      by (cases "o_delay opts")
        (auto simp: request_wait_def wait_of_def getDelay_def d is_number_def js_div1000_def
          js_ge_def initial_wait_def)
  next
    case None
    then have dn: "o_delay opts = Undefined \<or> o_delay opts = Null \<or> o_delay opts = NaN"
      by (cases "o_delay opts") (simp_all add: wait_of_def)
    have nd: "\<not> (is_number (o_delay opts) \<and> o_delay opts \<noteq> NaN)"
      using dn by (auto simp: is_number_def)
    have g: "getDelay (resolve_defaults opts)
               = (if is_number (loop_interval (resolve_defaults opts))
                     \<and> loop_interval (resolve_defaults opts) \<noteq> NaN
                  then js_div1000 (loop_interval (resolve_defaults opts)) else Num 0)"
      using nd by (auto simp: getDelay_def d)
    from li show ?thesis
    proof
      assume same: "loop_interval (resolve_defaults opts) = loop_interval opts"
      show ?thesis
        unfolding g same using None
        by (cases "loop_interval opts")
          (simp_all add: request_wait_def wait_of_def is_number_def js_div1000_def
            js_ge_def initial_wait_def)
    next
      assume ch: "is_number (o_delay opts) \<and> falsy (loop_interval opts)
                \<and> loop_interval (resolve_defaults opts) = Undefined"
      then have f: "falsy (loop_interval opts)"
        and u: "loop_interval (resolve_defaults opts) = Undefined" by simp_all
      show ?thesis
        unfolding g u using None f
        by (cases "loop_interval opts")
          (simp_all add: request_wait_def wait_of_def is_number_def js_div1000_def
            js_ge_def initial_wait_def falsy_def)
    qed
  qed
qed

lemma fill_tolerance_some: "\<exists>r. o_tolerance (fill_tolerance s opts) = Some r"
  by (simp add: fill_tolerance_def Let_def)

lemma request_early_code:
  assumes "o_tolerance (fill_tolerance s opts) = Some r"
  shows "read_early s r = request_early s opts"
proof (cases "o_tolerance opts")
  case None
  with assms show ?thesis
    by (auto simp: fill_tolerance_def Let_def read_early_def request_early_def)
next
  case (Some t)
  show ?thesis
  proof (cases t)
    case ClockTolerance
    with Some assms show ?thesis
      by (auto simp: fill_tolerance_def Let_def read_early_def request_early_def)
  next
    case (OwnTolerance a b)
    with Some assms show ?thesis
      by (cases a; cases b)
        (auto simp: fill_tolerance_def Let_def read_early_def request_early_def)
  qed
qed

lemma fill_tolerance_resolve:
  "o_tolerance (fill_tolerance s (resolve_defaults opts)) = o_tolerance (fill_tolerance s opts)"
  "o_loop (fill_tolerance s ev) = o_loop ev"
  by (simp_all add: fill_tolerance_def Let_def resolve_defaults_def)

lemma schedule_options_accepted:
  assumes now: "currentTime s = Some now"
    and acc: "accepted opts"
    and future: "\<not> js_ge (Num now)
                     (js_sub (js_add (Num now) (request_wait opts)) (request_early s opts))"
  shows "\<exists>s'. schedule_options n opts (Num now) s
            = Inr (Some (length (heap s)), fill_tolerance s (resolve_defaults opts), s')
        \<and> length (heap s) \<in> set (events s')
        \<and> trace s' = trace s \<and> isRunning s' = isRunning s
        \<and> \<not> deleted (lookup s' (length (heap s)))
        \<and> \<not> suspended (lookup s' (length (heap s)))
        \<and> scheduled (lookup s' (length (heap s))) = js_add (Num now) (request_wait opts)
        \<and> earliest (lookup s' (length (heap s)))
            = js_sub (js_add (Num now) (request_wait opts)) (request_early s opts)
        \<and> repetitions (lookup s' (length (heap s))) = loop_repetitions (resolve_defaults opts)
        \<and> elapsedTickCount (lookup s' (length (heap s))) = 0
        \<and> initialInterval (lookup s' (length (heap s))) = js_mul (request_wait opts) (Num 1000)
        \<and> currentInterval (lookup s' (length (heap s)))
            = js_mul (js_mul (request_wait opts) (Num 1000)) (Num 1)
        \<and> tol_early (lookup s' (length (heap s))) = request_early s opts
        \<and> currentTime s' = currentTime s
        \<and> (\<forall>x. x \<noteq> length (heap s) \<longrightarrow> lookup s' x = lookup s x)
        \<and> (length (heap s) \<notin> set (events s) \<longrightarrow>
             events s' = take (indexByTime s (earliest (lookup s' (length (heap s))))) (events s)
                         @ length (heap s)
                         # drop (indexByTime s (earliest (lookup s' (length (heap s))))) (events s))"
proof -
  define ev where "ev = resolve_defaults opts"
  define e where "e = length (heap s)"
  define ev1 where "ev1 = fill_tolerance s ev"
  define W where "W = request_wait opts"
  define D where "D = js_add (Num now) W"
  from acc obtain l where loop: "o_loop ev = Some l"
    by (auto simp: accepted_def Let_def ev_def)
  from fill_tolerance_some obtain r where r: "o_tolerance ev1 = Some r"
    unfolding ev1_def by blast
  have r': "o_tolerance (fill_tolerance s opts) = Some r"
    using r by (simp add: ev1_def ev_def fill_tolerance_resolve)
  have te: "read_early s r = request_early s opts"
    using r' by (rule request_early_code)
  have t1: "o_loop ev1 = Some l" using loop by (simp add: ev1_def fill_tolerance_resolve)
  have lr: "l_repetitions l = loop_repetitions ev"
    using loop by (simp add: loop_repetitions_def)
  define v where "v = \<lparr>deleted = False, uid = None, suspended = False, scheduled = Null,
                    earliest = Null, latest = Null,
                    tol_early = read_early s r, tol_late = read_late s r,
                    initialInterval = Null, currentInterval = Null,
                    repetitions = l_repetitions l, elapsedTickCount = 0, stretch = Num 1,
                    onTick = o_onTick ev1, onComplete = o_onComplete ev1,
                    onAborted = o_onAborted ev1, onMissed = o_onMissed ev1\<rparr>"
  define s1 where "s1 = s\<lparr>heap := heap s @ [v]\<rparr>"
  define s2 where "s2 = update D e (modify e (\<lambda>v. v\<lparr>suspended := False\<rparr>) s1)"
  have l1: "lookup s1 e = v" by (simp add: s1_def e_def)
  have len1: "e < length (heap s1)" by (simp add: s1_def e_def)
  have l2: "lookup s2 e = v\<lparr>suspended := False, scheduled := D,
              latest := js_add D (read_late s r),
              earliest := js_sub D (read_early s r)\<rparr>"
    using len1 l1 by (simp add: s2_def update_def lookup_modify v_def)
  have t2: "getCurrentTime s2 = Num now"
    using now by (simp add: getCurrentTime_def s2_def update_def s1_def)
  have notdue: "\<not> js_ge (getCurrentTime s2) (earliest (lookup s2 e))"
    using future by (simp add: t2 l2 te D_def W_def)
  define s3 where "s3 = requeue e s2"
  have sched: "ev_schedule n D False e s1 = Inr s3"
    using notdue l1 by (simp add: s2_def [symmetric] Let_def s3_def v_def)
  have ne: "new_event n ev1 D s = Inr (e, s3)"
    using sched t1 r
    by (simp add: new_event_def Let_def e_def [symmetric]
        v_def [symmetric] s1_def [symmetric] del: ev_schedule.simps)
  have ce_eq: "createEvent n ev D s = Inr (e, ev1, s3)"
    using ne by (simp add: createEvent_def ev1_def [symmetric])
  define s4 where "s4 = snd (generateUIDFor e s3)"
  define u where "u = fst (generateUIDFor e s3)"
  define s5 where "s5 = modify e (\<lambda>v. v\<lparr>uid := Some u\<rparr>) s4"
  define s6 where "s6 = modify e (\<lambda>v. v\<lparr>initialInterval := js_mul W (Num 1000),
                     currentInterval := js_mul (js_mul W (Num 1000)) (stretch v)\<rparr>) s5"
  have l3: "lookup s3 e = lookup s2 e" by (simp add: s3_def)
  have len3: "e < length (heap s3)" by (simp add: s3_def s2_def update_def s1_def e_def modify_def)
  have l4: "lookup s4 e = lookup s2 e" by (simp add: s4_def l3)
  have len4: "e < length (heap s4)" using len3 by (simp add: s4_def)
  have l5: "lookup s5 e = (lookup s2 e)\<lparr>uid := Some u\<rparr>"
    using len4 by (simp add: s5_def lookup_modify l4)
  have len5: "e < length (heap s5)" using len4 by (simp add: s5_def)
  have l6: "lookup s6 e = (lookup s2 e)\<lparr>uid := Some u, initialInterval := js_mul W (Num 1000),
                     currentInterval := js_mul (js_mul W (Num 1000)) (Num 1)\<rparr>"
    using len5 by (simp add: s6_def lookup_modify l5 l2 v_def)
  have in3: "e \<in> set (events s3)" by (simp add: s3_def)
  have in5: "e \<in> set (events s5)" using in3 by (simp add: s5_def s4_def)
  have live3: "\<not> deleted (lookup s3 e)" by (simp add: l3 l2 v_def)
  have live4: "\<not> deleted (lookup s4 e)" by (simp add: l4 l2 v_def)
  have live5: "\<not> deleted (lookup s5 e)" by (simp add: l5 l2 v_def)
  have uw: "updateWithInterval n (js_mul W (Num 1000)) e s5 = Inr s6"
    using live5 in5 by (simp add: updateWithInterval_def Let_def s6_def hasEvent_def)
  have interval: "(if js_ge (getDelay ev) (Num (5 / 100)) then getDelay ev else Num (5 / 1000))
                    = W"
    unfolding ev_def W_def by (rule request_wait_code)
  have accept: "\<not> (o_delay ev = PInf \<or> falsy (o_delay ev) \<and> falsy (loop_interval ev)
                    \<and> loop_repetitions ev = PInf)"
    "\<not> (o_delay ev = Undefined \<and> o_loop ev = None)"
    using acc by (auto simp: accepted_def Let_def ev_def)
  have so: "schedule_options n opts (Num now) s = Inr (Some e, ev1, s6)"
    using accept interval ce_eq live3 live4 live5 uw
    by (simp add: schedule_options_def ev_def [symmetric] Let_def D_def [symmetric]
        split_def s4_def [symmetric] u_def [symmetric] call_def setUid_def s5_def [symmetric])
  have in6: "e \<in> set (events s6)" using in5 by (simp add: s6_def)
  have tr: "trace s6 = trace s"
    by (simp add: s6_def s5_def s4_def s3_def s2_def update_def s1_def)
  have ir: "isRunning s6 = isRunning s"
    by (simp add: s6_def s5_def s4_def s3_def s2_def update_def s1_def)
  have ct: "currentTime s6 = currentTime s"
    by (simp add: s6_def s5_def s4_def s3_def s2_def update_def s1_def)
  have others: "\<forall>x. x \<noteq> e \<longrightarrow> lookup s6 x = lookup s x"
  proof (intro allI impI)
    fix x assume x: "x \<noteq> e"
    have "lookup s6 x = lookup s2 x"
      using x by (simp add: s6_def s5_def s4_def s3_def lookup_modify)
    also have "\<dots> = lookup s1 x"
      using x by (simp add: s2_def update_def lookup_modify)
    also have "\<dots> = lookup s x"
      using x by (auto simp: s1_def lookup_def e_def nth_append)
    finally show "lookup s6 x = lookup s x" .
  qed
  have ev6: "events s6 = events s3" by (simp add: s6_def s5_def s4_def)
  have queue: "e \<notin> set (events s) \<longrightarrow>
             events s6 = take (indexByTime s (earliest (lookup s6 e))) (events s) @ e
                         # drop (indexByTime s (earliest (lookup s6 e))) (events s)"
  proof
    assume fresh: "e \<notin> set (events s)"
    have e2: "events s2 = events s" by (simp add: s2_def update_def s1_def)
    have "\<forall>x\<in>set (events s). lookup s2 x = lookup s x"
    proof
      fix x assume "x \<in> set (events s)"
      with fresh have x: "x \<noteq> e" by auto
      have "lookup s2 x = lookup s1 x" using x by (simp add: s2_def update_def lookup_modify)
      also have "\<dots> = lookup s x" using x by (auto simp: s1_def lookup_def e_def nth_append)
      finally show "lookup s2 x = lookup s x" .
    qed
    then have k2: "queue_keys s2 = queue_keys s"
      by (simp add: queue_keys_def e2)
    have i2: "indexByTime s2 k = indexByTime s k" for k
      by (simp add: indexByTime_def k2 e2)
    have "events s3 = take (indexByTime s2 (earliest (lookup s2 e))) (events s2) @ e
                         # drop (indexByTime s2 (earliest (lookup s2 e))) (events s2)"
      using fresh by (simp add: s3_def requeue_def hasEvent_def e2)
    then show "events s6 = take (indexByTime s (earliest (lookup s6 e))) (events s) @ e
                         # drop (indexByTime s (earliest (lookup s6 e))) (events s)"
      by (simp add: ev6 i2 e2 l6)
  qed
  from so in6 tr ir ct others queue show ?thesis
    unfolding e_def [symmetric] ev_def [symmetric] ev1_def [symmetric] W_def [symmetric]
      D_def [symmetric]
    by (intro exI [of _ s6]) (simp add: l6 l2 v_def te lr)
qed

lemma public_schedule_accepted:
  assumes run: "isRunning s" and now: "currentTime s = Some now"
    and acc: "accepted opts"
    and future: "\<not> js_ge (Num now)
                     (js_sub (js_add (Num now) (request_wait opts)) (request_early s opts))"
  shows "\<exists>q s'. public_schedule n (Declarative opts) dl s
                   = Inr (RetEvent (length (heap s)), q, s')
        \<and> created s s' (length (heap s)) (js_add (Num now) (request_wait opts))
        \<and> isRunning s'
        \<and> repetitions (lookup s' (length (heap s))) = loop_repetitions (resolve_defaults opts)
        \<and> currentInterval (lookup s' (length (heap s)))
            = js_mul (js_mul (request_wait opts) (Num 1000)) (Num 1)"
proof -
  from schedule_options_accepted [OF now acc future, of n]
  obtain s' where so: "schedule_options n opts (Num now) s
            = Inr (Some (length (heap s)), fill_tolerance s (resolve_defaults opts), s')"
    and props: "length (heap s) \<in> set (events s')" "trace s' = trace s"
      "isRunning s' = isRunning s"
      "\<not> deleted (lookup s' (length (heap s)))" "\<not> suspended (lookup s' (length (heap s)))"
      "scheduled (lookup s' (length (heap s))) = js_add (Num now) (request_wait opts)"
      "repetitions (lookup s' (length (heap s))) = loop_repetitions (resolve_defaults opts)"
      "elapsedTickCount (lookup s' (length (heap s))) = 0"
      "currentInterval (lookup s' (length (heap s)))
            = js_mul (js_mul (request_wait opts) (Num 1000)) (Num 1)"
    by blast
  have ps: "public_schedule n (Declarative opts) dl s
              = Inr (RetEvent (length (heap s)),
                     Declarative (fill_tolerance s (resolve_defaults opts)), s')"
    using run now so
    by (simp add: public_schedule_def clock_schedule_def deadlineIsSafe_def
        getCurrentTime_def Let_def)
  have cr: "created s s' (length (heap s)) (js_add (Num now) (request_wait opts))"
    using props by (simp add: created_def)
  from ps cr props(3,7,9) run show ?thesis
    by (intro exI [of _ "Declarative (fill_tolerance s (resolve_defaults opts))"]
        exI [of _ s'] conjI) simp_all
qed

text \<open>A request that is not accepted yields no event: \<open>schedule\<close> returns \<open>undefined\<close> or throws.\<close>

lemma not_accepted_no_event:
  assumes run: "isRunning s" and now: "currentTime s = Some now"
    and rej: "\<not> accepted opts"
  shows "(\<exists>q s'. public_schedule n (Declarative opts) dl s = Inr (RetUndefined, q, s'))
       \<or> public_schedule n (Declarative opts) dl s = Inl TypeError"
proof -
  define ev where "ev = resolve_defaults opts"
  show ?thesis
  proof (cases "o_delay ev = PInf \<or> (falsy (o_delay ev) \<and> falsy (loop_interval ev)
                   \<and> loop_repetitions ev = PInf) \<or> (o_delay ev = Undefined \<and> o_loop ev = None)")
    case True
    then have "\<exists>q s'. public_schedule n (Declarative opts) dl s = Inr (RetUndefined, q, s')"
      using run now
      by (auto simp: public_schedule_def clock_schedule_def schedule_options_def Let_def
          ev_def [symmetric])
    then show ?thesis by (rule disjI1)
  next
    case False
    with rej have nl: "o_loop ev = None"
      by (auto simp: accepted_def Let_def ev_def)
    have "o_loop (fill_tolerance s ev) = None" using nl by (simp add: fill_tolerance_resolve)
    then have "createEvent n ev d s = Inl TypeError" for d
      by (simp add: createEvent_def new_event_def Let_def split: option.splits)
    then have "public_schedule n (Declarative opts) dl s = Inl TypeError"
      using run now False
      by (simp add: public_schedule_def clock_schedule_def schedule_options_def Let_def
          ev_def [symmetric])
    then show ?thesis by (rule disjI2)
  qed
qed



text \<open>
  An interval below 50 ms: the request \<open>{loop: {interval: 30}}\<close> at time 10 is queued for
  10.005, and the event's interval is 5 ms.
\<close>

lemma interval_below_50ms_repeats_at_5ms:
  "(case public_schedule 1 (Declarative
      \<lparr>o_delay = Undefined, o_loop = Some \<lparr>l_interval = Num 30, l_repetitions = Undefined\<rparr>,
       o_tolerance = None, o_onTick = True, o_onComplete = False, o_onAborted = False,
       o_onMissed = False\<rparr>) Undefined (started 10) of
      Inr (r, q, s) \<Rightarrow> scheduled (lookup s 0) = Num (2001 / 200)
          \<and> currentInterval (lookup s 0) = Num 5
    | Inl err \<Rightarrow> False)"
  by code_simp

text \<open>
  A request that is due at the call: with \<open>{delay: 1000, tolerance: {early: 2}}\<close> at time 10
  the earliest bound of the deadline 11 is 9, so the constructor's \<open>schedule\<close> executes the
  event at once; it completes and is deleted, and \<open>schedule\<close> then calls \<open>_setUid\<close> on the
  deleted event, which throws.
\<close>

lemma request_due_at_creation_fires_in_call:
  "(case createEvent 3
      (resolve_defaults \<lparr>o_delay = Num 1000, o_loop = None,
         o_tolerance = Some (OwnTolerance (Some (Num 2)) None),
         o_onTick = True, o_onComplete = False, o_onAborted = False, o_onMissed = False\<rparr>)
      (Num 11) (started 10) of
      Inr (e, q, s) \<Rightarrow> trace s = [Fired 0 True, Callback 0 OnTick] \<and> deleted (lookup s 0)
    | Inl err \<Rightarrow> False)
   \<and> public_schedule 3 (Declarative
        \<lparr>o_delay = Num 1000, o_loop = None,
         o_tolerance = Some (OwnTolerance (Some (Num 2)) None),
         o_onTick = True, o_onComplete = False, o_onAborted = False, o_onMissed = False\<rparr>)
        Undefined (started 10) = Inl TypeError"
  by code_simp

section \<open>Order of the queue\<close>


text \<open>
  The binary search on a queue whose earliest bounds are numbers in non-decreasing order:
  it returns the first position whose bound is not below the new one.
\<close>

lemma search_numeric:
  assumes "sorted rs" and "lo \<le> hi" and "hi \<le> length rs"
    and "\<forall>j<lo. rs ! j < k"
    and "\<forall>j. hi \<le> j \<and> j < length rs \<longrightarrow> k \<le> rs ! j"
  shows "lo \<le> search (map Num rs) (Num k) lo hi
       \<and> search (map Num rs) (Num k) lo hi \<le> hi
       \<and> (\<forall>j<search (map Num rs) (Num k) lo hi. rs ! j < k)
       \<and> (\<forall>j. search (map Num rs) (Num k) lo hi \<le> j \<and> j < length rs \<longrightarrow> k \<le> rs ! j)"
  using assms
proof (induction "map Num rs" "Num k" lo hi rule: search.induct)
  case (1 lo hi)
  show ?case
  proof (cases "lo < hi")
    case False
    with "1.prems" show ?thesis by (simp add: search.simps [of _ _ lo hi])
  next
    case True
    define mid where "mid = (lo + hi) div 2"
    have mid: "lo \<le> mid" "mid < hi" "mid < length rs"
      using True "1.prems"(3) by (auto simp: mid_def)
    show ?thesis
    proof (cases "rs ! mid < k")
      case early: True
      have below: "\<forall>j<mid + 1. rs ! j < k"
      proof (intro allI impI)
        fix j assume "j < mid + 1"
        then have "j \<le> mid" by simp
        then have "rs ! j \<le> rs ! mid"
          using \<open>sorted rs\<close> mid(3) by (simp add: sorted_iff_nth_mono)
        with early show "rs ! j < k" by simp
      qed
      have eq: "search (map Num rs) (Num k) lo hi = search (map Num rs) (Num k) (mid + 1) hi"
        using True early mid by (subst search.simps) (simp add: mid_def js_lt_def Let_def)
      have "mid + 1 \<le> search (map Num rs) (Num k) (mid + 1) hi
       \<and> search (map Num rs) (Num k) (mid + 1) hi \<le> hi
       \<and> (\<forall>j<search (map Num rs) (Num k) (mid + 1) hi. rs ! j < k)
       \<and> (\<forall>j. search (map Num rs) (Num k) (mid + 1) hi \<le> j \<and> j < length rs \<longrightarrow> k \<le> rs ! j)"
        using "1.hyps"(1) [of mid True] True early mid "1.prems" below
        by (simp add: mid_def js_lt_def)
      with eq mid show ?thesis by auto
    next
      case late: False
      have above: "\<forall>j. mid \<le> j \<and> j < length rs \<longrightarrow> k \<le> rs ! j"
      proof (intro allI impI)
        fix j assume "mid \<le> j \<and> j < length rs"
        then have "rs ! mid \<le> rs ! j"
          using \<open>sorted rs\<close> by (simp add: sorted_iff_nth_mono)
        with late show "k \<le> rs ! j" by simp
      qed
      have eq: "search (map Num rs) (Num k) lo hi = search (map Num rs) (Num k) lo mid"
        using True late mid by (subst search.simps) (simp add: mid_def js_lt_def Let_def)
      have "lo \<le> search (map Num rs) (Num k) lo mid
       \<and> search (map Num rs) (Num k) lo mid \<le> mid
       \<and> (\<forall>j<search (map Num rs) (Num k) lo mid. rs ! j < k)
       \<and> (\<forall>j. search (map Num rs) (Num k) lo mid \<le> j \<and> j < length rs \<longrightarrow> k \<le> rs ! j)"
        using "1.hyps"(2) [of mid False] True late mid "1.prems" above
        by (simp add: mid_def js_lt_def)
      with eq mid show ?thesis by auto
    qed
  qed
qed


lemma sorted_insert_at:
  assumes "sorted rs" and "\<forall>j<i. rs ! j < k"
    and "\<forall>j. i \<le> j \<and> j < length rs \<longrightarrow> k \<le> rs ! j"
  shows "sorted (take i rs @ k # drop i rs)"
proof -
  have a: "\<forall>x\<in>set (take i rs). x \<le> k"
    using assms(2) by (auto simp: in_set_conv_nth) (meson less_imp_le)
  have b: "\<forall>y\<in>set (drop i rs). k \<le> y"
    using assms(3) by (auto simp: in_set_conv_nth)
  have c: "\<forall>x\<in>set (take i rs). \<forall>y\<in>set (drop i rs). x \<le> y"
    using a b by (meson order_trans)
  show ?thesis
    using assms(1) a b c
    by (auto simp: sorted_append sorted_wrt_take sorted_wrt_drop)
qed

lemma insert_in_order:
  assumes keys: "queue_keys s = map Num rs" and srt: "sorted rs"
    and key: "earliest (lookup s e) = Num k"
  shows "\<exists>i \<le> length rs.
           events (insertEvent e s) = take i (events s) @ e # drop i (events s)
         \<and> (\<forall>j<i. rs ! j < k)
         \<and> (\<forall>j. i \<le> j \<and> j < length rs \<longrightarrow> k \<le> rs ! j)
         \<and> queue_keys (insertEvent e s) = map Num (take i rs @ k # drop i rs)
         \<and> sorted (take i rs @ k # drop i rs)"
proof -
  define i where "i = indexByTime s (Num k)"
  have len: "length (events s) = length rs"
    using keys by (metis length_map queue_keys_def)
  have i_eq: "i = search (map Num rs) (Num k) 0 (length rs)"
    by (simp add: i_def indexByTime_def keys len)
  from search_numeric [OF srt, of 0 "length rs" k]
  have b: "i \<le> length rs" "\<forall>j<i. rs ! j < k"
    "\<forall>j. i \<le> j \<and> j < length rs \<longrightarrow> k \<le> rs ! j"
    by (simp_all add: i_eq)
  have ev: "events (insertEvent e s) = take i (events s) @ e # drop i (events s)"
    by (simp add: i_def key)
  have "queue_keys (insertEvent e s)
          = take i (queue_keys s) @ Num k # drop i (queue_keys s)"
    by (simp add: queue_keys_def key take_map drop_map i_def)
  then have qk: "queue_keys (insertEvent e s) = map Num (take i rs @ k # drop i rs)"
    by (simp add: keys take_map drop_map)
  from sorted_insert_at [OF srt b(2) b(3)] b ev qk show ?thesis by blast
qed

section \<open>tick\<close>

lemma is_num_iff: "is_num v \<longleftrightarrow> (\<exists>x. v = Num x)"
  by (cases v) (simp_all add: is_num_def)

lemma steady_iff:
  "steady s e \<longleftrightarrow>
     (\<not> deleted (lookup s e) \<and> \<not> suspended (lookup s e) \<and>
      (\<exists>d te c. scheduled (lookup s e) = Num d \<and> tol_early (lookup s e) = Num te
         \<and> currentInterval (lookup s e) = Num c \<and> earliest (lookup s e) = Num (d - te)
         \<and> 0 < c))"
  by (auto simp: steady_def Let_def is_num_iff js_sub_def js_lt_def)

lemma steadyD:
  assumes "steady s e"
  obtains d te c where "\<not> deleted (lookup s e)" "\<not> suspended (lookup s e)"
    "scheduled (lookup s e) = Num d" "tol_early (lookup s e) = Num te"
    "currentInterval (lookup s e) = Num c" "earliest (lookup s e) = Num (d - te)" "0 < c"
  using assms unfolding steady_iff by blast

lemma steadyI:
  assumes "\<not> deleted (lookup s e)" "\<not> suspended (lookup s e)"
    "scheduled (lookup s e) = Num d" "tol_early (lookup s e) = Num te"
    "currentInterval (lookup s e) = Num c" "earliest (lookup s e) = Num (d - te)" "0 < c"
  shows "steady s e"
  using assms unfolding steady_iff by blast

lemma steady_cong: "lookup s' e = lookup s e \<Longrightarrow> steady s' e = steady s e"
  by (simp add: steady_def)

lemma due_cong:
  "lookup s' e = lookup s e \<Longrightarrow> currentTime s' = currentTime s \<Longrightarrow> due s' e = due s e"
  by (simp add: due_def getCurrentTime_def)

lemma tick_ready_frame:
  assumes "tick_ready s" and "events s' = events s" and "isRunning s' = isRunning s"
    and "currentTime s' = currentTime s"
    and "\<forall>x\<in>set (events s). lookup s' x = lookup s x"
  shows "tick_ready s'"
proof -
  have k: "queue_keys s' = queue_keys s"
    using assms(2,5) by (simp add: queue_keys_def)
  have "\<forall>x\<in>set (events s). steady s' x = steady s x"
    using assms(5) by (simp add: steady_def)
  then have st: "list_all (steady s') (events s')"
    using assms(1,2) by (simp add: tick_ready_def list_all_iff)
  show ?thesis
    using assms(1-4) k st by (simp add: tick_ready_def)
qed

lemma numeric_list: "(\<forall>x\<in>set xs. \<exists>r. f x = Num r) \<Longrightarrow> \<exists>rs. map f xs = map Num rs"
proof (induction xs)
  case Nil
  then show ?case by simp
next
  case (Cons a xs)
  then obtain r rs where "f a = Num r" "map f xs = map Num rs" by auto
  then have "map f (a # xs) = map Num (r # rs)" by simp
  then show ?case by blast
qed

lemma numeric_keys:
  assumes "list_all (steady s) (events s)"
  shows "\<exists>rs. queue_keys s = map Num rs"
proof -
  have "\<forall>x\<in>set (events s). \<exists>r. earliest (lookup s x) = Num r"
    using assms by (auto simp: list_all_iff elim: steadyD)
  then show ?thesis unfolding queue_keys_def by (rule numeric_list)
qed

lemma sorted_keys: "sorted_wrt js_le (map Num rs) = sorted rs"
  by (simp add: sorted_wrt_map js_le_def)


lemma tick_ready_insert:
  assumes rdy: "tick_ready s" and st: "steady s e" and fresh: "e \<notin> set (events s)"
  shows "tick_ready (insertEvent e s)"
proof -
  from rdy have all: "list_all (steady s) (events s)" and srt: "sorted_wrt js_le (queue_keys s)"
    and dist: "distinct (events s)"
    by (simp_all add: tick_ready_def)
  from numeric_keys [OF all] obtain rs where keys: "queue_keys s = map Num rs" by blast
  have srs: "sorted rs" using srt by (simp add: keys sorted_keys)
  from st obtain k where key: "earliest (lookup s e) = Num k" by (auto elim: steadyD)
  from insert_in_order [OF keys srs key] obtain i where
    ev: "events (insertEvent e s) = take i (events s) @ e # drop i (events s)"
    and qk: "queue_keys (insertEvent e s) = map Num (take i rs @ k # drop i rs)"
    and s': "sorted (take i rs @ k # drop i rs)"
    by blast
  have d': "distinct (events (insertEvent e s))"
  proof -
    have "distinct (take i (events s)) \<and> distinct (drop i (events s))
          \<and> set (take i (events s)) \<inter> set (drop i (events s)) = {}"
      using dist by (metis append_take_drop_id distinct_append)
    moreover have "e \<notin> set (take i (events s))" "e \<notin> set (drop i (events s))"
      using fresh by (auto dest: in_set_takeD in_set_dropD)
    ultimately show ?thesis unfolding ev by auto
  qed
  have "set (events (insertEvent e s)) = insert e (set (events s))"
  proof -
    have "set (take i (events s)) \<union> set (drop i (events s)) = set (events s)"
      by (metis append_take_drop_id set_append)
    then show ?thesis unfolding ev by auto
  qed
  then have a': "list_all (steady (insertEvent e s)) (events (insertEvent e s))"
    using all st by (simp add: list_all_iff steady_def del: insertEvent_fields(6))
  have k': "sorted_wrt js_le (queue_keys (insertEvent e s))"
    unfolding qk sorted_keys by (rule s')
  show ?thesis
    using rdy d' a' k' by (simp add: tick_ready_def del: insertEvent_fields(6))
qed

lemma fired_only_trans:
  assumes a: "events A = events s" and b: "\<forall>x. x \<noteq> e \<longrightarrow> lookup A x = lookup s x"
    and c: "currentTime A = currentTime s"
    and d: "\<exists>b hs. trace A = trace s @ Fired e b # map (Callback e) hs"
    and f: "fired_only e A s1"
  shows "fired_only e s s1"
proof -
  from d obtain b0 hs where tA: "trace A = trace s @ Fired e b0 # map (Callback e) hs" by blast
  from f obtain b1 rest where t1: "trace s1 = trace A @ Fired e b1 # rest"
    and r: "set (firings rest) \<subseteq> {e}"
    by (auto simp: fired_only_def)
  have "trace s1 = trace s @ Fired e b0 # (map (Callback e) hs @ Fired e b1 # rest)"
    by (simp add: t1 tA)
  moreover have "set (firings (map (Callback e) hs @ Fired e b1 # rest)) \<subseteq> {e}"
    using r by simp
  ultimately have tr: "\<exists>b rest. trace s1 = trace s @ Fired e b # rest \<and> set (firings rest) \<subseteq> {e}"
    by blast
  show ?thesis
    using f a b c tr unfolding fired_only_def by simp
qed


lemma tick_ready_others:
  assumes "tick_ready s" and "events s' = events s" and "isRunning s' = isRunning s"
    and "currentTime s' = currentTime s"
    and "\<forall>x. x \<noteq> e \<longrightarrow> lookup s' x = lookup s x" and "e \<notin> set (events s)"
  shows "tick_ready s'"
proof -
  have "\<forall>x\<in>set (events s). lookup s' x = lookup s x"
    using assms(5,6) by metis
  with assms(1-4) show ?thesis by (rule tick_ready_frame)
qed

lemma fired_onlyI:
  assumes "tick_ready s1" and "currentTime s1 = currentTime s"
    and "\<forall>x. x \<noteq> e \<longrightarrow> lookup s1 x = lookup s x"
    and "filter (\<lambda>x. x \<noteq> e) (events s1) = events s"
    and "e \<in> set (events s1) \<Longrightarrow> \<not> due s1 e"
    and "trace s1 = trace s @ Fired e b # rest" and "set (firings rest) \<subseteq> {e}"
  shows "fired_only e s s1"
  unfolding fired_only_def using assms by blast

lemma filter_insert_at:
  assumes "e \<notin> set q"
  shows "filter (\<lambda>x. x \<noteq> e) (take i q @ e # drop i q) = q"
proof -
  have "filter (\<lambda>x. x \<noteq> e) (take i q) = take i q" "filter (\<lambda>x. x \<noteq> e) (drop i q) = drop i q"
    using assms by (auto simp: filter_id_conv dest: in_set_takeD in_set_dropD)
  then show ?thesis by simp
qed


lemma execute_step:
  assumes rdy: "tick_ready s" and st: "steady s e" and fresh: "e \<notin> set (events s)"
  shows "(\<exists>s1. (\<forall>n. execute (Suc n) e s = Inr s1) \<and> fired_only e s s1)
       \<or> (\<exists>A. (\<forall>n. execute (Suc n) e s = execute n e A) \<and> due A e \<and> tick_ready A
              \<and> steady A e \<and> e \<notin> set (events A) \<and> events A = events s
              \<and> (\<forall>x. x \<noteq> e \<longrightarrow> lookup A x = lookup s x)
              \<and> currentTime A = currentTime s
              \<and> (\<exists>b hs. trace A = trace s @ Fired e b # map (Callback e) hs)
              \<and> (\<exists>ea c. earliest (lookup s e) = Num ea \<and> currentInterval (lookup s e) = Num c
                    \<and> earliest (lookup A e) = Num (ea + c / 1000)
                    \<and> currentInterval (lookup A e) = Num c))"
proof -
  from st obtain d te c where live: "\<not> deleted (lookup s e)" and ns: "\<not> suspended (lookup s e)"
    and sch: "scheduled (lookup s e) = Num d" and tol: "tol_early (lookup s e) = Num te"
    and ci: "currentInterval (lookup s e) = Num c" and ea: "earliest (lookup s e) = Num (d - te)"
    and pos: "0 < c"
    by (rule steadyD)
  have rng: "e < length (heap s)" using live by (rule live_in_range)
  have run: "isRunning s" using rdy by (simp add: tick_ready_def)
  define F where "F = fire e s"
  note ff = fire_facts [OF rng, folded F_def]
  have lF: "lookup F e = (lookup s e)\<lparr>elapsedTickCount := Suc (elapsedTickCount (lookup s e))\<rparr>"
    by (rule ff(1))
  have oF: "\<And>x. x \<noteq> e \<Longrightarrow> lookup F x = lookup s x" by (rule ff(2))
  have eF: "events F = events s" using ff(3) fresh by (simp add: remove1_idem)
  have tF: "currentTime F = currentTime s" by (rule ff(5))
  have rF: "isRunning F = isRunning s" by (rule ff(4))
  from ff(6) obtain b hs where trF: "trace F = trace s @ Fired e b # map (Callback e) hs"
    by blast
  have liveF: "\<not> deleted (lookup F e)" using live by (simp add: lF)
  have nsF: "\<not> suspended (lookup F e)" using ns by (simp add: lF)
  have noF: "\<not> hasEvent F e" using fresh by (simp add: hasEvent_def eF)
  have rdyF: "tick_ready F"
  proof (rule tick_ready_others [OF rdy eF rF tF _ fresh])
    show "\<forall>x. x \<noteq> e \<longrightarrow> lookup F x = lookup s x" using oF by blast
  qed
  have flt: "filter (\<lambda>x. x \<noteq> e) (events s) = events s"
    using fresh by (auto simp: filter_id_conv)
  note ex = execute_Suc [OF live run ns liveF [unfolded F_def], folded F_def]
  show ?thesis
  proof (cases "js_ge (Num (of_nat (elapsedTickCount (lookup F e)))) (repetitions (lookup F e))")
    case True
    define s1 where "s1 = ev_delete e F"
    note df = ev_delete_fields [OF liveF, folded s1_def]
    have e1: "events s1 = events s" using df(3) eF fresh by (simp add: remove1_idem)
    have o1: "\<forall>x. x \<noteq> e \<longrightarrow> lookup s1 x = lookup s x" using df(4) oF by simp
    have r1: "isRunning s1 = isRunning s" using df(2) rF by simp
    have c1: "currentTime s1 = currentTime s" using df(1) tF by simp
    have rdy1: "tick_ready s1"
      by (rule tick_ready_others [OF rdy e1 r1 c1 o1 fresh])
    from df(6) obtain hs' where "trace s1 = trace F @ map (Callback e) hs'" by blast
    then have tr: "trace s1 = trace s @ Fired e b # map (Callback e) (hs @ hs')"
      by (simp add: trF)
    have fr: "set (firings (map (Callback e) (hs @ hs'))) \<subseteq> {e}" by simp
    have f1: "filter (\<lambda>x. x \<noteq> e) (events s1) = events s" using e1 flt by simp
    have n1: "e \<in> set (events s1) \<Longrightarrow> \<not> due s1 e" using e1 fresh by simp
    have fo: "fired_only e s s1"
      by (rule fired_onlyI [OF rdy1 c1 o1 f1 n1 tr fr])
    have "\<forall>n. execute (Suc n) e s = Inr s1" using ex True by (simp add: s1_def)
    with fo have "\<exists>s1. (\<forall>n. execute (Suc n) e s = Inr s1) \<and> fired_only e s s1" by blast
    then show ?thesis by (rule disjI1)
  next
    case False
    show ?thesis
    proof (cases "isLooping (lookup F e)")
      case nl: False
      have fr: "set (firings (map (Callback e) hs)) \<subseteq> {e}" by simp
      have oF': "\<forall>x. x \<noteq> e \<longrightarrow> lookup F x = lookup s x" using oF by blast
      have fF: "filter (\<lambda>x. x \<noteq> e) (events F) = events s" using eF flt by simp
      have nF: "e \<in> set (events F) \<Longrightarrow> \<not> due F e" using eF fresh by simp
      have fo: "fired_only e s F"
        by (rule fired_onlyI [OF rdyF tF oF' fF nF trF fr])
      have "\<forall>n. execute (Suc n) e s = Inr F" using ex False nl by simp
      with fo have "\<exists>s1. (\<forall>n. execute (Suc n) e s = Inr s1) \<and> fired_only e s s1" by blast
      then show ?thesis by (rule disjI1)
    next
      case lp: True
      define A where "A = advance e F"
      have schF: "scheduled (lookup F e) = Num d" and ciF: "currentInterval (lookup F e) = Num c"
        and tolF: "tol_early (lookup F e) = Num te"
        using sch ci tol by (simp_all add: lF)
      note af = advance_facts [OF liveF schF ciF tolF, folded A_def]
      have oA: "\<forall>x. x \<noteq> e \<longrightarrow> lookup A x = lookup s x" using af(2) oF by simp
      have eA: "events A = events s" using af(3) eF by simp
      have tA: "currentTime A = currentTime s" using af(5) tF by simp
      have rA: "isRunning A = isRunning s" using af(4) rF by simp
      have trA: "trace A = trace s @ Fired e b # map (Callback e) hs" using af(6) trF by simp
      have stA: "steady A e"
      proof (rule steadyI [of A e "d + c / 1000" te c])
        show "\<not> deleted (lookup A e)" using live by (simp add: af(1) lF)
        show "\<not> suspended (lookup A e)" by (simp add: af(1))
        show "scheduled (lookup A e) = Num (d + c / 1000)" by (simp add: af(1))
        show "tol_early (lookup A e) = Num te" using tol by (simp add: af(1) lF)
        show "currentInterval (lookup A e) = Num c" using ci by (simp add: af(1) lF)
        show "earliest (lookup A e) = Num (d + c / 1000 - te)" by (simp add: af(1))
        show "0 < c" by (rule pos)
      qed
      have rdyA: "tick_ready A"
        by (rule tick_ready_others [OF rdy eA rA tA oA fresh])
      have eaA: "earliest (lookup A e) = Num ((d - te) + c / 1000)"
        by (simp add: af(1))
      have ciA: "currentInterval (lookup A e) = Num c" using ci by (simp add: af(1) lF)
      have step: "execute (Suc n) e s
                    = (if due A e then execute n e A else Inr (requeue e A))" for n
        unfolding ex [of n] A_def using False lp noF nsF by (simp del: execute.simps ev_schedule.simps)
      show ?thesis
      proof (cases "due A e")
        case True
        have e1: "\<forall>n. execute (Suc n) e s = execute n e A" using step True by simp
        have e2: "\<exists>b hs. trace A = trace s @ Fired e b # map (Callback e) hs"
          using trA by blast
        have e3: "\<exists>ea c. earliest (lookup s e) = Num ea \<and> currentInterval (lookup s e) = Num c
                    \<and> earliest (lookup A e) = Num (ea + c / 1000)
                    \<and> currentInterval (lookup A e) = Num c"
          using ea ci eaA ciA by blast
        have freshA: "e \<notin> set (events A)" using fresh eA by simp
        have "(\<forall>n. execute (Suc n) e s = execute n e A) \<and> due A e \<and> tick_ready A
              \<and> steady A e \<and> e \<notin> set (events A) \<and> events A = events s
              \<and> (\<forall>x. x \<noteq> e \<longrightarrow> lookup A x = lookup s x)
              \<and> currentTime A = currentTime s
              \<and> (\<exists>b hs. trace A = trace s @ Fired e b # map (Callback e) hs)
              \<and> (\<exists>ea c. earliest (lookup s e) = Num ea \<and> currentInterval (lookup s e) = Num c
                    \<and> earliest (lookup A e) = Num (ea + c / 1000)
                    \<and> currentInterval (lookup A e) = Num c)"
          using e1 True rdyA stA freshA eA oA tA e2 e3 by (intro conjI)
        then show ?thesis by (intro disjI2 exI [of _ A])
      next
        case nd: False
        define s1 where "s1 = insertEvent e A"
        have rq: "requeue e A = s1"
          using fresh by (simp add: requeue_def hasEvent_def eA s1_def)
        have freshA: "e \<notin> set (events A)" using fresh eA by simp
        have rdy1: "tick_ready s1"
          unfolding s1_def by (rule tick_ready_insert [OF rdyA stA freshA])
        have l1: "\<And>x. lookup s1 x = lookup A x" by (simp add: s1_def)
        have t1: "currentTime s1 = currentTime s" by (simp add: s1_def tA)
        have ev1: "events s1 = take (indexByTime A (earliest (lookup A e))) (events s) @ e
                     # drop (indexByTime A (earliest (lookup A e))) (events s)"
          by (simp add: s1_def eA)
        have f1: "filter (\<lambda>x. x \<noteq> e) (events s1) = events s"
          unfolding ev1 by (rule filter_insert_at [OF fresh])
        have nd1: "\<not> due s1 e"
          using nd due_cong [of s1 e A] l1 t1 tA by simp
        have fr: "set (firings (map (Callback e) hs)) \<subseteq> {e}" by simp
        have tr: "trace s1 = trace s @ Fired e b # map (Callback e) hs"
          by (simp add: s1_def trA)
        have o1: "\<forall>x. x \<noteq> e \<longrightarrow> lookup s1 x = lookup s x" using l1 oA by simp
        have fo: "fired_only e s s1"
          by (rule fired_onlyI [OF rdy1 t1 o1 f1 _ tr fr]) (rule nd1)
        have "\<forall>n. execute (Suc n) e s = Inr s1" using step nd rq by simp
        with fo have "\<exists>s1. (\<forall>n. execute (Suc n) e s = Inr s1) \<and> fired_only e s s1" by blast
        then show ?thesis by (rule disjI1)
      qed
    qed
  qed
qed


text \<open>
  An event that is still due after firing is executed again, for a deadline that is later
  by its interval (the sum is exact in this model). With a positive interval the event
  stops being due after finitely many firings, so \<open>execute\<close> returns.
\<close>

lemma execute_catches_up:
  assumes "tick_ready s" and "steady s e" and "e \<notin> set (events s)"
    and "currentTime s = Some now"
    and "earliest (lookup s e) = Num ea" and "currentInterval (lookup s e) = Num c"
    and "now - ea < of_nat (Suc k) * (c / 1000)"
  shows "\<exists>s1. (\<forall>m>k. execute m e s = Inr s1) \<and> fired_only e s s1"
  using assms
proof (induction k arbitrary: s ea)
  case 0
  from execute_step [OF "0.prems"(1-3)] show ?case
  proof (elim disjE exE conjE)
    fix s1 assume a: "\<forall>n. execute (Suc n) e s = Inr s1" and f: "fired_only e s s1"
    have "\<forall>m>0. execute m e s = Inr s1"
    proof (intro allI impI)
      fix m :: nat assume "0 < m"
      then obtain n where "m = Suc n" by (cases m) auto
      with a show "execute m e s = Inr s1" by simp
    qed
    with f show ?thesis by blast
  next
    fix A b hs ea' c'
    assume d: "due A e" and t: "currentTime A = currentTime s"
      and e1: "earliest (lookup s e) = Num ea'" and c1: "currentInterval (lookup s e) = Num c'"
      and e2: "earliest (lookup A e) = Num (ea' + c' / 1000)"
    have "ea' = ea" "c' = c" using e1 c1 "0.prems"(5,6) by simp_all
    with d e2 t "0.prems"(4) have "ea + c / 1000 \<le> now"
      by (simp add: due_def js_le_def getCurrentTime_def)
    with "0.prems"(7) show ?thesis by simp
  qed
next
  case (Suc k)
  from execute_step [OF Suc.prems(1-3)] show ?case
  proof (elim disjE exE conjE)
    fix s1 assume a: "\<forall>n. execute (Suc n) e s = Inr s1" and f: "fired_only e s s1"
    have "\<forall>m>Suc k. execute m e s = Inr s1"
    proof (intro allI impI)
      fix m :: nat assume "Suc k < m"
      then obtain n where "m = Suc n" by (cases m) auto
      with a show "execute m e s = Inr s1" by simp
    qed
    with f show ?thesis by blast
  next
    fix A b hs ea' c'
    assume x: "\<forall>n. execute (Suc n) e s = execute n e A"
      and rdy: "tick_ready A" and st: "steady A e" and fr: "e \<notin> set (events A)"
      and ev: "events A = events s" and lo: "\<forall>x. x \<noteq> e \<longrightarrow> lookup A x = lookup s x"
      and t: "currentTime A = currentTime s"
      and tr: "trace A = trace s @ Fired e b # map (Callback e) hs"
      and e1: "earliest (lookup s e) = Num ea'" and c1: "currentInterval (lookup s e) = Num c'"
      and e2: "earliest (lookup A e) = Num (ea' + c' / 1000)"
      and c2: "currentInterval (lookup A e) = Num c'"
    have eq: "ea' = ea" "c' = c" using e1 c1 Suc.prems(5,6) by simp_all
    have tA: "currentTime A = Some now" using t Suc.prems(4) by simp
    have lag: "now - (ea + c / 1000) < of_nat (Suc k) * (c / 1000)"
      using Suc.prems(7) by (simp add: algebra_simps)
    from Suc.IH [OF rdy st fr tA e2 [unfolded eq] c2 [unfolded eq] lag]
    obtain s1 where r: "\<forall>m>k. execute m e A = Inr s1" and f: "fired_only e A s1" by blast
    have "\<forall>m>Suc k. execute m e s = Inr s1"
    proof (intro allI impI)
      fix m :: nat assume m: "Suc k < m"
      then obtain n where n: "m = Suc n" by (cases m) auto
      with m have "k < n" by simp
      with r x n show "execute m e s = Inr s1" by simp
    qed
    moreover have "fired_only e s s1"
    proof (rule fired_only_trans [OF ev lo t _ f])
      show "\<exists>b hs. trace A = trace s @ Fired e b # map (Callback e) hs" using tr by blast
    qed
    ultimately show ?thesis by blast
  qed
qed


lemma execute_returns:
  assumes rdy: "tick_ready s" and st: "steady s e" and fresh: "e \<notin> set (events s)"
  shows "\<exists>k s1. (\<forall>m>k. execute m e s = Inr s1) \<and> fired_only e s s1"
proof -
  from rdy obtain now where now: "currentTime s = Some now"
    by (auto simp: tick_ready_def)
  from st obtain d te c where ci: "currentInterval (lookup s e) = Num c"
    and ea: "earliest (lookup s e) = Num (d - te)" and pos: "0 < c"
    by (rule steadyD)
  have "0 < c / 1000" using pos by simp
  then obtain n where n: "now - (d - te) < of_nat n * (c / 1000)"
    using ex_less_of_nat_mult by blast
  have "of_nat n * (c / 1000) \<le> of_nat (Suc n) * (c / 1000)"
    using pos by (simp add: algebra_simps)
  with n have lag: "now - (d - te) < of_nat (Suc n) * (c / 1000)" by simp
  from execute_catches_up [OF rdy st fresh now ea ci lag] show ?thesis by blast
qed

lemma unshift_fields [simp]:
  "lookup (unshift e s) x = lookup s x" "events (unshift e s) = e # events s"
  "currentTime (unshift e s) = currentTime s" "isRunning (unshift e s) = isRunning s"
  "trace (unshift e s) = trace s"
  by (simp_all add: unshift_def lookup_def)

lemma steady_unshift [simp]: "steady (unshift e s) x = steady s x"
  by (simp add: steady_def)

lemma due_unshift [simp]: "due (unshift e s) x = due s x"
  by (simp add: due_def getCurrentTime_def)

lemma tick_ready_unshift:
  "tick_ready (unshift e s) \<longleftrightarrow>
     (tick_ready s \<and> steady s e \<and> e \<notin> set (events s)
      \<and> (\<forall>x\<in>set (events s). js_le (earliest (lookup s e)) (earliest (lookup s x))))"
  by (auto simp: tick_ready_def queue_keys_def list_all_iff)

lemma tick_loop_not_due:
  assumes "\<not> due s e"
  shows "tick_loop n (Some e) s = Inr (unshift e s)"
  using assms by (cases n) (simp_all add: due_def)

lemma tick_loop_due:
  assumes "due s e"
  shows "tick_loop (Suc n) (Some e) s =
           (case execute n e s of Inl err \<Rightarrow> Inl err
            | Inr s1 \<Rightarrow> tick_loop n (fst (shift s1)) (snd (shift s1)))"
  using assms by (simp add: due_def)

lemma head_not_due:
  assumes rdy: "tick_ready (unshift e s)" and nd: "\<not> due s e"
  shows "\<forall>x\<in>set (e # events s). \<not> due s x"
proof
  fix x assume x: "x \<in> set (e # events s)"
  show "\<not> due s x"
  proof (cases "x = e")
    case True
    with nd show ?thesis by simp
  next
    case False
    with x have xin: "x \<in> set (events s)" by simp
    from rdy [unfolded tick_ready_unshift] xin
    have le: "js_le (earliest (lookup s e)) (earliest (lookup s x))"
      and se: "steady s e" and r: "tick_ready s"
      by simp_all
    from r xin have sx: "steady s x" by (simp add: tick_ready_def list_all_iff)
    from se obtain a where a: "earliest (lookup s e) = Num a" by (auto elim: steadyD)
    from sx obtain b where b: "earliest (lookup s x) = Num b" by (auto elim: steadyD)
    from rdy obtain now where now: "getCurrentTime s = Num now"
      by (auto simp: tick_ready_def getCurrentTime_def)
    from le a b have "a \<le> b" by (simp add: js_le_def)
    moreover from nd a now have "\<not> a \<le> now" by (simp add: due_def js_le_def)
    ultimately have "\<not> b \<le> now" by simp
    then show ?thesis using b now by (simp add: due_def js_le_def)
  qed
qed

text \<open>
  The states in which \<open>tick\<close> is meant to run are those a started clock is in, and accepted
  declarative requests with a finite wait, the passing of time, \<open>suspend\<close> and \<open>delete\<close>
  lead from one such state to another.
\<close>

lemma tick_ready_started: "tick_ready (started t)"
  by (simp add: tick_ready_def started_def queue_keys_def)

lemma tick_ready_at_time:
  assumes "tick_ready s"
  shows "tick_ready (at_time t s)"
proof -
  have l: "lookup (at_time t s) x = lookup s x" for x
    by (simp add: at_time_def lookup_def)
  have e: "events (at_time t s) = events s" "isRunning (at_time t s) = isRunning s"
    "currentTime (at_time t s) \<noteq> None"
    by (simp_all add: at_time_def)
  have st: "steady (at_time t s) = steady s"
    by (rule ext) (simp add: steady_def l)
  have k: "queue_keys (at_time t s) = queue_keys s"
    by (simp add: queue_keys_def l e)
  show ?thesis
    using assms by (simp add: tick_ready_def e st k)
qed

lemma declarative_request_keeps_ready:
  assumes rdy: "tick_ready s" and now: "currentTime s = Some now"
    and acc: "accepted opts"
    and w: "request_wait opts = Num w" and te: "request_early s opts = Num te"
    and future: "te < w"
  shows "\<exists>q s'. public_schedule n (Declarative opts) dl s
                   = Inr (RetEvent (length (heap s)), q, s')
        \<and> length (heap s) \<in> set (events s') \<and> tick_ready s'"
proof -
  define e where "e = length (heap s)"
  have run: "isRunning s" using rdy by (simp add: tick_ready_def)
  have fut: "\<not> js_ge (Num now)
                     (js_sub (js_add (Num now) (request_wait opts)) (request_early s opts))"
    using future by (simp add: w te js_ge_def js_sub_def js_add_def)
  from schedule_options_accepted [OF now acc fut, of n]
  obtain s' where so: "schedule_options n opts (Num now) s
            = Inr (Some e, fill_tolerance s (resolve_defaults opts), s')"
    and mem: "e \<in> set (events s')"
    and ir: "isRunning s' = isRunning s"
    and live: "\<not> deleted (lookup s' e)" and ns: "\<not> suspended (lookup s' e)"
    and sch: "scheduled (lookup s' e) = js_add (Num now) (request_wait opts)"
    and ea: "earliest (lookup s' e)
            = js_sub (js_add (Num now) (request_wait opts)) (request_early s opts)"
    and ci: "currentInterval (lookup s' e)
            = js_mul (js_mul (request_wait opts) (Num 1000)) (Num 1)"
    and tol: "tol_early (lookup s' e) = request_early s opts"
    and ct: "currentTime s' = currentTime s"
    and others: "\<forall>x. x \<noteq> e \<longrightarrow> lookup s' x = lookup s x"
    and queue: "e \<notin> set (events s) \<longrightarrow>
             events s' = take (indexByTime s (earliest (lookup s' e))) (events s) @ e
                         # drop (indexByTime s (earliest (lookup s' e))) (events s)"
    unfolding e_def by blast
  have ps: "public_schedule n (Declarative opts) dl s
              = Inr (RetEvent e, Declarative (fill_tolerance s (resolve_defaults opts)), s')"
    using run now so
    by (simp add: public_schedule_def clock_schedule_def deadlineIsSafe_def
        getCurrentTime_def Let_def)
  from rdy have all: "list_all (steady s) (events s)" and srt: "sorted_wrt js_le (queue_keys s)"
    and dist: "distinct (events s)"
    by (simp_all add: tick_ready_def)
  have fresh: "e \<notin> set (events s)"
  proof
    assume "e \<in> set (events s)"
    with all have "steady s e" by (simp add: list_all_iff)
    then have "\<not> deleted (lookup s e)" by (auto elim: steadyD)
    then have "e < length (heap s)" by (rule live_in_range)
    then show False by (simp add: e_def)
  qed
  from numeric_keys [OF all] obtain rs where keys: "queue_keys s = map Num rs" by blast
  have srs: "sorted rs" using srt by (simp add: keys sorted_keys)
  have len: "length (events s) = length rs"
    using keys by (metis length_map queue_keys_def)
  define k where "k = now + w - te"
  have key: "earliest (lookup s' e) = Num k"
    by (simp add: ea w te js_add_def js_sub_def k_def)
  define i where "i = indexByTime s (Num k)"
  have i_eq: "i = search (map Num rs) (Num k) 0 (length rs)"
    by (simp add: i_def indexByTime_def keys len)
  from search_numeric [OF srs, of 0 "length rs" k]
  have b: "i \<le> length rs" "\<forall>j<i. rs ! j < k"
    "\<forall>j. i \<le> j \<and> j < length rs \<longrightarrow> k \<le> rs ! j"
    by (simp_all add: i_eq)
  have ev: "events s' = take i (events s) @ e # drop i (events s)"
    using queue fresh by (simp add: key i_def)
  have same: "\<forall>x\<in>set (events s). lookup s' x = lookup s x"
    using others fresh by auto
  have ks: "map (\<lambda>x. earliest (lookup s' x)) (events s) = map Num rs"
    using same keys by (simp add: queue_keys_def cong: map_cong)
  have "queue_keys s' = take i (map Num rs) @ Num k # drop i (map Num rs)"
    by (simp add: queue_keys_def ev key take_map [symmetric] drop_map [symmetric] ks
        del: take_map drop_map)
  then have qk: "queue_keys s' = map Num (take i rs @ k # drop i rs)"
    by (simp add: take_map drop_map)
  have k': "sorted_wrt js_le (queue_keys s')"
    unfolding qk sorted_keys by (rule sorted_insert_at [OF srs b(2) b(3)])
  have d': "distinct (events s')"
  proof -
    have "distinct (take i (events s)) \<and> distinct (drop i (events s))
          \<and> set (take i (events s)) \<inter> set (drop i (events s)) = {}"
      using dist by (metis append_take_drop_id distinct_append)
    moreover have "e \<notin> set (take i (events s))" "e \<notin> set (drop i (events s))"
      using fresh by (auto dest: in_set_takeD in_set_dropD)
    ultimately show ?thesis unfolding ev by auto
  qed
  have set': "set (events s') = insert e (set (events s))"
  proof -
    have "set (take i (events s)) \<union> set (drop i (events s)) = set (events s)"
      by (metis append_take_drop_id set_append)
    then show ?thesis unfolding ev by auto
  qed
  have pos: "0 < w * 1000" using w by (cases "o_delay opts"; cases "loop_interval opts")
      (auto simp: request_wait_def wait_of_def initial_wait_def split: if_splits)
  have ste: "steady s' e"
  proof (rule steadyI [of s' e "now + w" te "w * 1000"])
    show "\<not> deleted (lookup s' e)" by (rule live)
    show "\<not> suspended (lookup s' e)" by (rule ns)
    show "scheduled (lookup s' e) = Num (now + w)" by (simp add: sch w js_add_def)
    show "tol_early (lookup s' e) = Num te" by (simp add: tol te)
    show "currentInterval (lookup s' e) = Num (w * 1000)" by (simp add: ci w js_mul_def)
    show "earliest (lookup s' e) = Num (now + w - te)" by (simp add: key k_def)
    show "0 < w * 1000" by (rule pos)
  qed
  have a': "list_all (steady s') (events s')"
    unfolding list_all_iff set'
  proof
    fix x assume "x \<in> insert e (set (events s))"
    then show "steady s' x"
    proof
      assume "x = e" with ste show ?thesis by simp
    next
      assume x: "x \<in> set (events s)"
      with all have "steady s x" by (simp add: list_all_iff)
      moreover have "lookup s' x = lookup s x" using same x by simp
      ultimately show ?thesis by (simp add: steady_def)
    qed
  qed
  have "tick_ready s'"
    using rdy d' a' k' ir ct by (simp add: tick_ready_def)
  with ps mem show ?thesis
    unfolding e_def by (intro exI conjI)
qed

lemma tick_ready_remove:
  assumes rdy: "tick_ready s" and ev: "events s' = remove1 e (events s)"
    and run: "isRunning s' = isRunning s" and ct: "currentTime s' = currentTime s"
    and oth: "\<forall>x. x \<noteq> e \<longrightarrow> lookup s' x = lookup s x"
  shows "tick_ready s'"
proof -
  from rdy have all: "list_all (steady s) (events s)" and srt: "sorted_wrt js_le (queue_keys s)"
    and dist: "distinct (events s)"
    by (simp_all add: tick_ready_def)
  have ev': "events s' = filter (\<lambda>x. x \<noteq> e) (events s)"
    using dist
    by (auto simp: ev distinct_remove1_removeAll removeAll_filter_not_eq intro: filter_cong)
  have same: "\<forall>x\<in>set (events s'). lookup s' x = lookup s x"
    using oth by (simp add: ev')
  have d': "distinct (events s')" using dist by (simp add: ev')
  have a': "list_all (steady s') (events s')"
    using all same by (auto simp: list_all_iff steady_def ev')
  have "sorted_wrt (\<lambda>x y. js_le (earliest (lookup s x)) (earliest (lookup s y))) (events s)"
    using srt by (simp add: queue_keys_def sorted_wrt_map)
  then have "sorted_wrt (\<lambda>x y. js_le (earliest (lookup s x)) (earliest (lookup s y)))
               (events s')"
    unfolding ev' by (rule sorted_wrt_filter)
  then have "sorted_wrt js_le (map (\<lambda>x. earliest (lookup s x)) (events s'))"
    by (simp add: sorted_wrt_map)
  moreover have "queue_keys s' = map (\<lambda>x. earliest (lookup s x)) (events s')"
    using same by (simp add: queue_keys_def cong: map_cong)
  ultimately have k': "sorted_wrt js_le (queue_keys s')" by simp
  show ?thesis
    using rdy d' a' k' run ct by (simp add: tick_ready_def)
qed

lemma tick_ready_suspend:
  assumes rdy: "tick_ready s" and res: "clock_suspend (One e) s = Inr s'"
  shows "tick_ready s'"
proof -
  from res have live: "\<not> deleted (lookup s e)" and s': "s' = ev_suspend e s"
    by (auto simp: clock_suspend_def call_def split: if_splits)
  have eq: "s' = modify e (\<lambda>v. v\<lparr>suspended := True\<rparr>) (removeEvent e s)"
    using live by (simp add: s' ev_suspend_def)
  show ?thesis
  proof (rule tick_ready_remove [OF rdy])
    show "events s' = remove1 e (events s)" by (simp add: eq)
    show "isRunning s' = isRunning s" by (simp add: eq)
    show "currentTime s' = currentTime s" by (simp add: eq)
    show "\<forall>x. x \<noteq> e \<longrightarrow> lookup s' x = lookup s x" by (simp add: eq lookup_modify)
  qed
qed

lemma tick_ready_delete:
  assumes rdy: "tick_ready s" and res: "clock_delete (One e) s = Inr s'"
  shows "tick_ready s'"
proof -
  from res have live: "\<not> deleted (lookup s e)" and s': "s' = ev_delete e s"
    by (auto simp: clock_delete_def call_def split: if_splits)
  note df = ev_delete_fields [OF live, folded s']
  show ?thesis
  proof (rule tick_ready_remove [OF rdy])
    show "events s' = remove1 e (events s)" by (rule df(3))
    show "isRunning s' = isRunning s" by (rule df(2))
    show "currentTime s' = currentTime s" by (rule df(1))
    show "\<forall>x. x \<noteq> e \<longrightarrow> lookup s' x = lookup s x" using df(4) by blast
  qed
qed

text \<open>
  The loop of \<open>tick\<close> in such a state: it returns for every sufficient bound on the
  recursion; the events that fire are the due events, in queue order, each in one
  uninterrupted run; the entries that are not due are in the queue afterwards, in their
  order and unchanged; no event left in the queue is due.
\<close>

lemma remdups_adj_block:
  assumes "set xs \<subseteq> {e}" and "e \<notin> set ys"
  shows "remdups_adj (e # xs @ ys) = e # remdups_adj ys"
  using assms
proof (induction xs)
  case Nil
  then show ?case by (cases ys) auto
next
  case (Cons a xs)
  then have "a = e" by simp
  with Cons show ?case by simp
qed

lemma drainedI:
  assumes "tick_ready s'" and "currentTime s' = currentTime s"
    and "\<forall>x\<in>set (events s'). \<not> due s' x"
    and "trace s' = trace s @ tr" and "remdups_adj (firings tr) = filter (due s) q"
    and "filter (\<lambda>x. x \<notin> set (firings tr)) (events s') = filter (\<lambda>x. \<not> due s x) q"
    and "\<forall>x. x \<notin> set (firings tr) \<longrightarrow> lookup s' x = lookup s x"
  shows "drained q s s'"
  unfolding drained_def using assms by blast

lemma tick_loop_stops:
  assumes rdy: "tick_ready (unshift e s)" and nd: "\<not> due s e"
  shows "(\<forall>m. tick_loop m (Some e) s = Inr (unshift e s))
       \<and> drained (e # events s) s (unshift e s)"
proof -
  have a: "\<forall>m. tick_loop m (Some e) s = Inr (unshift e s)"
    using nd by (simp add: tick_loop_not_due)
  from head_not_due [OF rdy nd] have none: "\<forall>x\<in>set (e # events s). \<not> due s x" .
  then have f1: "filter (due s) (e # events s) = []"
    and f2: "filter (\<lambda>x. \<not> due s x) (e # events s) = e # events s"
    by (simp_all add: filter_empty_conv filter_id_conv)
  have nd': "\<forall>x\<in>set (events (unshift e s)). \<not> due (unshift e s) x"
    using none by simp
  have "drained (e # events s) s (unshift e s)"
  proof (rule drainedI [where tr = "[]"])
    show "tick_ready (unshift e s)" by (rule rdy)
    show "currentTime (unshift e s) = currentTime s" by simp
    show "\<forall>x\<in>set (events (unshift e s)). \<not> due (unshift e s) x" by (rule nd')
    show "trace (unshift e s) = trace s @ []" by simp
    show "remdups_adj (firings []) = filter (due s) (e # events s)" unfolding f1 by simp
    show "filter (\<lambda>x. x \<notin> set (firings [])) (events (unshift e s))
            = filter (\<lambda>x. \<not> due s x) (e # events s)"
      unfolding f2 by simp
    show "\<forall>x. x \<notin> set (firings []) \<longrightarrow> lookup (unshift e s) x = lookup s x" by simp
  qed
  with a show ?thesis by simp
qed

lemma due_after_execute:
  assumes fo: "fired_only e s s1"
  shows "filter (due s1) (events s1) = filter (due s) (events s)"
proof -
  from fo have t: "currentTime s1 = currentTime s"
    and o: "\<forall>x. x \<noteq> e \<longrightarrow> lookup s1 x = lookup s x"
    and f: "filter (\<lambda>x. x \<noteq> e) (events s1) = events s"
    and n: "e \<in> set (events s1) \<longrightarrow> \<not> due s1 e"
    by (simp_all add: fired_only_def)
  have same: "x \<noteq> e \<Longrightarrow> due s1 x = due s x" for x
    using o t by (intro due_cong) simp_all
  have "filter (due s) (events s) = filter (\<lambda>x. x \<noteq> e \<and> due s x) (events s1)"
    by (simp add: f [symmetric])
  also have "\<dots> = filter (due s1) (events s1)"
  proof (rule filter_cong [OF refl])
    fix x assume "x \<in> set (events s1)"
    then show "(x \<noteq> e \<and> due s x) = due s1 x"
      using n same by (cases "x = e") simp_all
  qed
  finally show ?thesis by simp
qed

lemma not_due_after_execute:
  assumes fo: "fired_only e s s1"
  shows "filter (\<lambda>x. x \<noteq> e) (filter (\<lambda>x. \<not> due s1 x) (events s1))
           = filter (\<lambda>x. \<not> due s x) (events s)"
proof -
  from fo have t: "currentTime s1 = currentTime s"
    and o: "\<forall>x. x \<noteq> e \<longrightarrow> lookup s1 x = lookup s x"
    and f: "filter (\<lambda>x. x \<noteq> e) (events s1) = events s"
    by (simp_all add: fired_only_def)
  have same: "x \<noteq> e \<Longrightarrow> due s1 x = due s x" for x
    using o t by (intro due_cong) simp_all
  have "filter (\<lambda>x. \<not> due s x) (events s) = filter (\<lambda>x. x \<noteq> e \<and> \<not> due s x) (events s1)"
    by (simp add: f [symmetric])
  also have "\<dots> = filter (\<lambda>x. x \<noteq> e \<and> \<not> due s1 x) (events s1)"
    by (rule filter_cong [OF refl]) (use same in auto)
  finally show ?thesis by (simp add: conj_commute)
qed

lemma tick_loop_drains:
  assumes "tick_ready (unshift e s)"
  shows "\<exists>N s'. (\<forall>m\<ge>N. tick_loop m (Some e) s = Inr s') \<and> drained (e # events s) s s'"
  using assms
proof (induction "length (filter (due s) (events s))" arbitrary: s e rule: less_induct)
  case less
  show ?case
  proof (cases "due s e")
    case False
    from tick_loop_stops [OF less.prems False]
    have "(\<forall>m\<ge>0. tick_loop m (Some e) s = Inr (unshift e s))
          \<and> drained (e # events s) s (unshift e s)" by simp
    then show ?thesis by (intro exI)
  next
    case True
    from less.prems [unfolded tick_ready_unshift]
    have rdy: "tick_ready s" and st: "steady s e" and fresh: "e \<notin> set (events s)"
      by simp_all
    from execute_returns [OF rdy st fresh] obtain k s1
      where ex: "\<forall>m>k. execute m e s = Inr s1" and fo: "fired_only e s s1" by blast
    from fo have rdy1: "tick_ready s1" and t1: "currentTime s1 = currentTime s"
      and f1: "filter (\<lambda>x. x \<noteq> e) (events s1) = events s"
      and o1: "\<forall>x. x \<noteq> e \<longrightarrow> lookup s1 x = lookup s x"
      by (simp_all add: fired_only_def)
    from fo obtain b rest where tr1: "trace s1 = trace s @ Fired e b # rest"
      and fr: "set (firings rest) \<subseteq> {e}"
      unfolding fired_only_def by blast
    note dq = due_after_execute [OF fo]
    note nq = not_due_after_execute [OF fo]
    have due_hd: "filter (due s) (e # events s) = e # filter (due s) (events s)"
      using True by simp
    have ndue_hd: "filter (\<lambda>x. \<not> due s x) (e # events s) = filter (\<lambda>x. \<not> due s x) (events s)"
      using True by simp
    show ?thesis
    proof (cases "events s1")
      case Nil
      have run: "\<forall>m\<ge>Suc (Suc k). tick_loop m (Some e) s = Inr s1"
      proof (intro allI impI)
        fix m assume m: "Suc (Suc k) \<le> m"
        then obtain n where n: "m = Suc n" by (cases m) auto
        with m have "k < n" by simp
        with ex have "execute n e s = Inr s1" by simp
        then show "tick_loop m (Some e) s = Inr s1"
          unfolding n tick_loop_due [OF True] by (simp add: shift_def Nil)
      qed
      have es: "events s = []" using f1 Nil by simp
      have fs: "remdups_adj (firings (Fired e b # rest)) = filter (due s) (e # events s)"
        unfolding due_hd using remdups_adj_block [OF fr, of "[]"] by (simp add: es)
      have nd: "\<forall>x\<in>set (events s1). \<not> due s1 x" using Nil by simp
      have keep: "filter (\<lambda>x. x \<notin> set (firings (Fired e b # rest))) (events s1)
                    = filter (\<lambda>x. \<not> due s x) (e # events s)"
        unfolding ndue_hd by (simp add: Nil es)
      have same: "\<forall>x. x \<notin> set (firings (Fired e b # rest)) \<longrightarrow> lookup s1 x = lookup s x"
        using o1 by simp
      have "drained (e # events s) s s1"
        by (rule drainedI [OF rdy1 t1 nd tr1 fs keep same])
      with run show ?thesis by (intro exI conjI)
    next
      case (Cons h q)
      define s2 where "s2 = s1\<lparr>events := q\<rparr>"
      have sh: "fst (shift s1) = Some h" "snd (shift s1) = s2"
        by (simp_all add: shift_def Cons s2_def)
      have un: "unshift h s2 = s1"
        using Cons by (simp add: unshift_def s2_def)
      have rdy2: "tick_ready (unshift h s2)" using rdy1 by (simp add: un)
      have l2: "\<And>x. lookup s2 x = lookup s1 x" by (simp add: s2_def lookup_def)
      have t2: "currentTime s2 = currentTime s1" by (simp add: s2_def)
      have d2: "due s2 x = due s1 x" for x
        using l2 t2 by (intro due_cong) simp_all
      have e2: "events s2 = q" by (simp add: s2_def)
      have tr2: "trace s2 = trace s1" by (simp add: s2_def)
      have sub: "\<exists>N s'. (\<forall>m\<ge>N. tick_loop m (Some h) s2 = Inr s')
                   \<and> drained (h # events s2) s2 s'"
      proof (cases "due s2 h")
        case False
        from tick_loop_stops [OF rdy2 False]
        have "(\<forall>m\<ge>0. tick_loop m (Some h) s2 = Inr (unshift h s2))
          \<and> drained (h # events s2) s2 (unshift h s2)" by simp
        then show ?thesis by (intro exI)
      next
        case True
        then have "due s1 h" by (simp add: d2)
        then have "filter (due s1) (events s1) = h # filter (due s1) q"
          by (simp add: Cons)
        then have "length (filter (due s1) q) < length (filter (due s1) (events s1))"
          by simp
        moreover have "filter (due s2) (events s2) = filter (due s1) q"
          using d2 by (simp add: e2 cong: filter_cong)
        ultimately have "length (filter (due s2) (events s2))
                           < length (filter (due s) (events s))"
          by (simp add: dq)
        then show ?thesis using rdy2 by (rule less.hyps)
      qed
      then obtain N2 s' where run2: "\<forall>m\<ge>N2. tick_loop m (Some h) s2 = Inr s'"
        and dr2: "drained (h # events s2) s2 s'" by blast
      have run: "\<forall>m\<ge>Suc (max (Suc k) N2). tick_loop m (Some e) s = Inr s'"
      proof (intro allI impI)
        fix m assume m: "Suc (max (Suc k) N2) \<le> m"
        then obtain n where n: "m = Suc n" by (cases m) auto
        with m have "k < n" "N2 \<le> n" by simp_all
        with ex run2 have "execute n e s = Inr s1" "tick_loop n (Some h) s2 = Inr s'"
          by simp_all
        then show "tick_loop m (Some e) s = Inr s'"
          unfolding n tick_loop_due [OF True] by (simp add: sh)
      qed
      from dr2 have rdy': "tick_ready s'" and t': "currentTime s' = currentTime s2"
        and nd': "\<forall>x\<in>set (events s'). \<not> due s' x"
        by (simp_all add: drained_def)
      from dr2 obtain tr where tr': "trace s' = trace s2 @ tr"
        and fs2: "remdups_adj (firings tr) = filter (due s2) (h # events s2)"
        and keep2: "filter (\<lambda>x. x \<notin> set (firings tr)) (events s')
                      = filter (\<lambda>x. \<not> due s2 x) (h # events s2)"
        and same2: "\<forall>x. x \<notin> set (firings tr) \<longrightarrow> lookup s' x = lookup s2 x"
        unfolding drained_def by blast
      have q1: "h # events s2 = events s1" by (simp add: e2 Cons)
      have dd: "filter (due s2) (events s1) = filter (due s1) (events s1)"
        using d2 by (simp cong: filter_cong)
      have nn: "filter (\<lambda>x. \<not> due s2 x) (events s1) = filter (\<lambda>x. \<not> due s1 x) (events s1)"
        using d2 by (simp cong: filter_cong)
      have fs2': "remdups_adj (firings tr) = filter (due s) (events s)"
        using fs2 by (simp only: q1 dd dq)
      have keep2': "filter (\<lambda>x. x \<notin> set (firings tr)) (events s')
                      = filter (\<lambda>x. \<not> due s1 x) (events s1)"
        using keep2 by (simp only: q1 nn)
      have "set (firings tr) = set (remdups_adj (firings tr))" by simp
      then have sf: "set (firings tr) = set (filter (due s) (events s))"
        by (simp only: fs2')
      have enot: "e \<notin> set (firings tr)" using fresh by (simp add: sf)
      have tt: "currentTime s' = currentTime s" using t' t2 t1 by simp
      have trace': "trace s' = trace s @ (Fired e b # rest @ tr)"
        by (simp add: tr' tr2 tr1)
      have fir: "firings (Fired e b # rest @ tr) = e # firings rest @ firings tr" by simp
      have fs: "remdups_adj (firings (Fired e b # rest @ tr)) = filter (due s) (e # events s)"
        unfolding fir due_hd using remdups_adj_block [OF fr enot] fs2' by simp
      have setf: "set (firings (Fired e b # rest @ tr)) = insert e (set (firings tr))"
        using fr by auto
      have "filter (\<lambda>x. x \<notin> set (firings (Fired e b # rest @ tr))) (events s')
              = filter (\<lambda>x. x \<noteq> e) (filter (\<lambda>x. x \<notin> set (firings tr)) (events s'))"
        unfolding setf by (simp add: conj_commute)
      also have "\<dots> = filter (\<lambda>x. \<not> due s x) (events s)"
        unfolding keep2' by (rule nq)
      finally have keep: "filter (\<lambda>x. x \<notin> set (firings (Fired e b # rest @ tr))) (events s')
              = filter (\<lambda>x. \<not> due s x) (e # events s)"
        by (simp only: ndue_hd)
      have same: "\<forall>x. x \<notin> set (firings (Fired e b # rest @ tr)) \<longrightarrow> lookup s' x = lookup s x"
      proof (intro allI impI)
        fix x assume "x \<notin> set (firings (Fired e b # rest @ tr))"
        then have xe: "x \<noteq> e" and xt: "x \<notin> set (firings tr)" by (simp_all add: setf)
        from same2 xt have "lookup s' x = lookup s2 x" by simp
        also have "\<dots> = lookup s1 x" by (rule l2)
        also have "\<dots> = lookup s x" using o1 xe by simp
        finally show "lookup s' x = lookup s x" .
      qed
      have "drained (e # events s) s s'"
        by (rule drainedI [OF rdy' tt nd' trace' fs keep same])
      with run show ?thesis by (intro exI conjI)
    qed
  qed
qed

lemma tick_drains:
  assumes "tick_ready s"
  shows "\<exists>N s'. (\<forall>m\<ge>N. tick m s = Inr s') \<and> drained (events s) s s'"
proof (cases "events s")
  case Nil
  have a: "\<forall>m\<ge>0. tick m s = Inr s" by (simp add: tick_def shift_def Nil)
  have "drained (events s) s s"
  proof (rule drainedI [where tr = "[]"])
    show "tick_ready s" by (rule assms)
  qed (simp_all add: Nil)
  with a show ?thesis by (intro exI conjI)
next
  case (Cons e q)
  define s0 where "s0 = s\<lparr>events := q\<rparr>"
  have un: "unshift e s0 = s" using Cons by (simp add: unshift_def s0_def)
  have rdy0: "tick_ready (unshift e s0)" using assms by (simp add: un)
  from tick_loop_drains [OF rdy0] obtain N s'
    where run: "\<forall>m\<ge>N. tick_loop m (Some e) s0 = Inr s'"
      and dr: "drained (e # events s0) s0 s'" by blast
  have now: "currentTime s \<noteq> None" using assms by (simp add: tick_ready_def)
  have tk: "tick m s = tick_loop m (Some e) s0" for m
    using now by (auto simp: tick_def shift_def Cons s0_def)
  have l0: "\<And>x. lookup s0 x = lookup s x" by (simp add: s0_def lookup_def)
  have d0: "due s0 = due s"
    by (rule ext, rule due_cong) (simp add: l0, simp add: s0_def)
  have ev: "e # events s0 = events s" by (simp add: s0_def Cons)
  have t0: "trace s0 = trace s" "currentTime s0 = currentTime s" by (simp_all add: s0_def)
  have "drained (events s) s s'"
    using dr unfolding drained_def ev d0 t0 l0 .
  moreover have "\<forall>m\<ge>N. tick m s = Inr s'" using run by (simp add: tk)
  ultimately show ?thesis by (intro exI conjI)
qed

text \<open>
  C2. The three events are queued at time 10, and the third is rescheduled through the clock's
  \<open>schedule(ev, 12)\<close>. The public method passes no deadline on, so the event is put at the
  head of the queue with the earliest bound \<open>NaN\<close>. At time 11 the other two events are due,
  but \<open>tick\<close> takes the head, finds that it is not due, pushes it back and stops: at every
  time and for every bound on the recursion, \<open>tick\<close> returns the state unchanged and fires
  nothing.
\<close>

theorem tick_leaves_due_events_behind_rescheduled_head:
  "final_state (public_schedule 1 (Existing 2) (Num 12) three_events) = Inr head_rescheduled
   \<and> events head_rescheduled = [2, 1, 0]
   \<and> earliest (lookup head_rescheduled 2) = NaN
   \<and> due (at_time 11 head_rescheduled) 1 \<and> due (at_time 11 head_rescheduled) 0
   \<and> tick n (at_time t head_rescheduled) = Inr (at_time t head_rescheduled)"
proof -
  have a: "final_state (public_schedule 1 (Existing 2) (Num 12) three_events) = Inr head_rescheduled"
    "events head_rescheduled = [2, 1, 0]"
    "earliest (lookup head_rescheduled 2) = NaN"
    "due (at_time 11 head_rescheduled) 1" "due (at_time 11 head_rescheduled) 0"
    by code_simp+
  have nd: "\<not> due ((at_time t head_rescheduled)\<lparr>events := [1, 0]\<rparr>) 2"
    by (simp add: due_def head_rescheduled_def at_time_def lookup_def modify_def
        three_events_def started_def js_le_def)
  have "tick n (at_time t head_rescheduled)
          = tick_loop n (Some 2) ((at_time t head_rescheduled)\<lparr>events := [1, 0]\<rparr>)"
    by (simp add: tick_def shift_def at_time_def head_rescheduled_def)
  also have "\<dots> = Inr (unshift 2 ((at_time t head_rescheduled)\<lparr>events := [1, 0]\<rparr>))"
    using nd by (rule tick_loop_not_due)
  also have "unshift 2 ((at_time t head_rescheduled)\<lparr>events := [1, 0]\<rparr>)
               = at_time t head_rescheduled"
    by (simp add: unshift_def at_time_def head_rescheduled_def)
  finally have b: "tick n (at_time t head_rescheduled) = Inr (at_time t head_rescheduled)" .
  from a b show ?thesis by simp
qed

text \<open>At time 11 the queue of the three events in order: the two due events fire.\<close>

lemma tick_three_events:
  "(case tick 3 (at_time 11 three_events) of
      Inr s \<Rightarrow> firings (trace s) = [1, 0] \<and> events s = [1, 2]
    | Inl err \<Rightarrow> False)
   \<and> due (at_time 11 three_events) 0 \<and> due (at_time 11 three_events) 1
   \<and> \<not> due (at_time 11 three_events) 2"
  by code_simp

section \<open>Order of firing\<close>

lemma insert_position:
  assumes rdy: "tick_ready s" and num: "is_num (earliest (lookup s e))"
  shows "(\<exists>i\<le>length (events s).
           events (insertEvent e s) = take i (events s) @ e # drop i (events s)
         \<and> (\<forall>x\<in>set (take i (events s)).
               js_lt (earliest (lookup s x)) (earliest (lookup s e)))
         \<and> (\<forall>x\<in>set (drop i (events s)).
               js_le (earliest (lookup s e)) (earliest (lookup s x))))
       \<and> sorted_wrt js_le (queue_keys (insertEvent e s))"
proof -
  from rdy have all: "list_all (steady s) (events s)" and srt: "sorted_wrt js_le (queue_keys s)"
    by (simp_all add: tick_ready_def)
  from numeric_keys [OF all] obtain rs where keys: "queue_keys s = map Num rs" by blast
  have srs: "sorted rs" using srt by (simp add: keys sorted_keys)
  from num obtain k where key: "earliest (lookup s e) = Num k" by (auto simp: is_num_iff)
  have len: "length (events s) = length rs"
    using keys by (metis length_map queue_keys_def)
  have nth: "earliest (lookup s (events s ! j)) = Num (rs ! j)" if "j < length rs" for j
  proof -
    have "queue_keys s ! j = map Num rs ! j" by (simp add: keys)
    with that show ?thesis by (simp add: queue_keys_def len)
  qed
  from insert_in_order [OF keys srs key] obtain i where i: "i \<le> length rs"
    and ev: "events (insertEvent e s) = take i (events s) @ e # drop i (events s)"
    and lo: "\<forall>j<i. rs ! j < k"
    and hi: "\<forall>j. i \<le> j \<and> j < length rs \<longrightarrow> k \<le> rs ! j"
    and qk: "queue_keys (insertEvent e s) = map Num (take i rs @ k # drop i rs)"
    and s': "sorted (take i rs @ k # drop i rs)"
    by blast
  have before: "\<forall>x\<in>set (take i (events s)).
               js_lt (earliest (lookup s x)) (earliest (lookup s e))"
  proof
    fix x assume "x \<in> set (take i (events s))"
    then obtain j where j: "j < i" "j < length (events s)" "x = events s ! j"
      by (auto simp: in_set_conv_nth)
    with lo nth [of j] show "js_lt (earliest (lookup s x)) (earliest (lookup s e))"
      by (simp add: key js_lt_def len)
  qed
  have after: "\<forall>x\<in>set (drop i (events s)).
               js_le (earliest (lookup s e)) (earliest (lookup s x))"
  proof
    fix x assume "x \<in> set (drop i (events s))"
    then obtain j where j: "j < length (events s) - i" "x = events s ! (i + j)"
      by (auto simp: in_set_conv_nth)
    then have "i \<le> i + j \<and> i + j < length rs" by (simp add: len)
    with hi nth [of "i + j"] j show "js_le (earliest (lookup s e)) (earliest (lookup s x))"
      by (simp add: key js_le_def)
  qed
  have pos: "\<exists>i\<le>length (events s).
           events (insertEvent e s) = take i (events s) @ e # drop i (events s)
         \<and> (\<forall>x\<in>set (take i (events s)).
               js_lt (earliest (lookup s x)) (earliest (lookup s e)))
         \<and> (\<forall>x\<in>set (drop i (events s)).
               js_le (earliest (lookup s e)) (earliest (lookup s x)))"
    using i ev before after unfolding len by (intro exI [of _ i] conjI)
  have "sorted_wrt js_le (queue_keys (insertEvent e s))"
    unfolding qk sorted_keys by (rule s')
  with pos show ?thesis by (rule conjI)
qed

lemma due_events_in_order:
  assumes "tick_ready s"
  shows "sorted_wrt js_le (map (\<lambda>x. earliest (lookup s x)) (filter (due s) (events s)))"
proof -
  from assms have "sorted_wrt js_le (map (\<lambda>x. earliest (lookup s x)) (events s))"
    by (simp add: tick_ready_def queue_keys_def)
  then have "sorted_wrt (\<lambda>x y. js_le (earliest (lookup s x)) (earliest (lookup s y))) (events s)"
    by (simp add: sorted_wrt_map)
  then have "sorted_wrt (\<lambda>x y. js_le (earliest (lookup s x)) (earliest (lookup s y)))
               (filter (due s) (events s))"
    by (rule sorted_wrt_filter)
  then show ?thesis by (simp add: sorted_wrt_map)
qed



end
